theory Spec2Isabelle
  imports Main "HOL-Library.Word" "HOL-Library.Multiset"
begin

unbundle bit_operations_syntax

section \<open>Modelling conventions\<close>

text \<open>
  The development embeds the partition engine of go-jamf-guid-sharder: the exclusion and
  reservation steps of \<^verbatim>\<open>cmd/shard.go\<close> and the four strategies of
  \<^verbatim>\<open>cmd/strategies.go\<close>.

  \<^item> Go's \<^verbatim>\<open>int\<close> is 64 bits wide. It is modelled by \<open>int\<close> with the wrap-around
    written out (\<open>wrap64\<close>) at every addition and subtraction of \<^verbatim>\<open>shardByPercentage\<close>,
    \<^verbatim>\<open>shardBySize\<close> and the validator's sum whose operands the program does not bound.
    Loop indices and lengths are left as they are: a slice has fewer than \<open>2^63\<close>
    elements, and the theorems that depend on it say so.
  \<^item> The \<^verbatim>\<open>float64\<close> expression of \<^verbatim>\<open>shardByPercentage\<close> is written out where it is exact
    (a product below \<open>2^53\<close> in absolute value) and is a parameter elsewhere.
  \<^item> Memory is not bounded: \<^verbatim>\<open>make\<close> and \<^verbatim>\<open>append\<close> always succeed.
  \<^item> A \<^verbatim>\<open>[]string\<close> whose nil-ness can be observed in the output is a
    \<open>string list option\<close>: \<open>None\<close> is the nil slice, \<open>Some []\<close> an empty non-nil one.
  \<^item> A Go map that is iterated is an association list with distinct keys; the order of
    the list stands for the (unspecified) order in which Go visits the map.
  \<^item> An index or slice expression out of range is the value \<open>Inl Panic\<close>.
  \<^item> The standard library's SHA-256 and pseudo-random generator are parameters of the
    model (a record of functions); \<^verbatim>\<open>strconv.Atoi\<close>, \<^verbatim>\<open>fmt.Sscanf\<close> with the format
    \<^verbatim>\<open>shard_%d\<close> and \<^verbatim>\<open>fmt.Sprintf\<close> are written out for ASCII input.
\<close>

section \<open>Standard library functions used by the engine\<close>

definition is_digit :: "char \<Rightarrow> bool" where
  "is_digit c = (48 \<le> (of_char c :: nat) \<and> (of_char c :: nat) \<le> 57)"

definition is_space :: "char \<Rightarrow> bool" where
  "is_space c = ((of_char c :: nat) \<in> {9, 11, 12, 13, 32})"

definition decimalValue :: "string \<Rightarrow> nat" where
  "decimalValue ds = foldl (\<lambda>n c. n * 10 + ((of_char c :: nat) - 48)) 0 ds"

text \<open>
  \<^verbatim>\<open>strconv.ParseInt(s, 10, 64)\<close>: the value and whether the error is nil. A syntax error
  gives 0, a range error gives the nearest 64-bit value.
\<close>

definition strconv_ParseInt :: "string \<Rightarrow> int \<times> bool" where
  "strconv_ParseInt s =
     (let neg = (s \<noteq> [] \<and> hd s = CHR ''-'');
          body = (if s \<noteq> [] \<and> (hd s = CHR ''+'' \<or> hd s = CHR ''-'') then tl s else s)
      in if body = [] \<or> \<not> list_all is_digit body then (0, False)
         else let un = int (decimalValue body) in
           if \<not> neg \<and> un \<ge> 2 ^ 63 then (2 ^ 63 - 1, False)
           else if neg \<and> un > 2 ^ 63 then (- (2 ^ 63), False)
           else (if neg then - un else un, True))"

text \<open>\<^verbatim>\<open>aInt, _ := strconv.Atoi(a)\<close>: the error is dropped by the caller.\<close>

definition strconv_Atoi :: "string \<Rightarrow> int" where
  "strconv_Atoi s = fst (strconv_ParseInt s)"

text \<open>
  \<^verbatim>\<open>fmt.Sscanf(shardName, "shard_%d", &idx)\<close>: \<open>Some\<close> of the scanned integer, or \<open>None\<close>
  when Sscanf returns an error. The literal prefix must match; the verb skips blanks,
  accepts one sign and the longest run of decimal digits, and ignores what follows.
\<close>

definition fmt_Sscanf_shard :: "string \<Rightarrow> int option" where
  "fmt_Sscanf_shard s =
     (if take 6 s \<noteq> ''shard_'' then None
      else let t = dropWhile is_space (drop 6 s);
               sgn = (if t \<noteq> [] \<and> (hd t = CHR ''+'' \<or> hd t = CHR ''-'') then [hd t] else []);
               digits = takeWhile is_digit (drop (length sgn) t)
           in if digits = [] then None
              else (case strconv_ParseInt (sgn @ digits) of
                      (i, ok) \<Rightarrow> if ok then Some i else None))"

text \<open>\<^verbatim>\<open>%d\<close> of \<^verbatim>\<open>fmt.Sprintf\<close> for a non-negative integer.\<close>

fun fmt_decimal :: "nat \<Rightarrow> string" where
  "fmt_decimal n =
     (if n < 10 then [char_of (48 + n)]
      else fmt_decimal (n div 10) @ [char_of (48 + n mod 10)])"

declare fmt_decimal.simps [simp del]

text \<open>\<^verbatim>\<open>binary.BigEndian.Uint64(hash[:8])\<close>.\<close>

definition binary_BigEndian_Uint64 :: "8 word list \<Rightarrow> 64 word" where
  "binary_BigEndian_Uint64 bs = foldl (\<lambda>acc b. push_bit 8 acc OR ucast b) 0 (take 8 bs)"

text \<open>
  The parameters: \<^verbatim>\<open>sha256.Sum256\<close>, \<^verbatim>\<open>rand.NewSource\<close> followed by \<^verbatim>\<open>rand.New\<close>, the
  raw draw behind \<^verbatim>\<open>(*rand.Rand).Intn\<close>, and the value of
  \<^verbatim>\<open>int(float64(t) * float64(p) / 100.0)\<close> for operands whose product is not below \<open>2^53\<close>
  in absolute value (there the product is rounded, and Go leaves the conversion of a
  quotient outside the 64-bit range to the implementation). \<open>'g\<close> is the generator's
  state.
\<close>

record 'g stdlib =
  sha256_Sum256 :: "string \<Rightarrow> 8 word list"
  rand_NewSource :: "64 word \<Rightarrow> 'g"
  rand_draw :: "'g \<Rightarrow> nat \<Rightarrow> nat \<times> 'g"
  float64_percent :: "int \<Rightarrow> int \<Rightarrow> int"

text \<open>The value of a 64-bit signed integer operation whose exact result is \<open>x\<close>.\<close>

definition wrap64 :: "int \<Rightarrow> int" where
  "wrap64 x = (x + 2 ^ 63) mod 2 ^ 64 - 2 ^ 63"

text \<open>
  \<^verbatim>\<open>rng.Intn(n)\<close> for \<open>n > 0\<close> returns a number in \<open>[0, n)\<close> and advances the generator.
  The documented range is imposed on the parameter by reducing the draw modulo \<open>n\<close>.
\<close>

definition rand_Intn :: "'g stdlib \<Rightarrow> 'g \<Rightarrow> nat \<Rightarrow> nat \<times> 'g" where
  "rand_Intn L g n = (case rand_draw L g n of (r, g') \<Rightarrow> (r mod n, g'))"

section \<open>Data model\<close>

type_synonym slice = "string list option"

definition elems :: "slice \<Rightarrow> string list" where
  "elems s = (case s of None \<Rightarrow> [] | Some xs \<Rightarrow> xs)"

text \<open>\<^verbatim>\<open>append(s, xs...)\<close>: appending nothing returns \<open>s\<close> itself, nil or not.\<close>

definition go_append :: "slice \<Rightarrow> string list \<Rightarrow> slice" where
  "go_append s xs = (if xs = [] then s else Some (elems s @ xs))"

datatype error =
    InvalidShardName string
  | ShardOutOfRange string int
  | DuplicateReservation string string string
  | UnknownStrategy string
  | Panic

record shardReservations =
  IDsByShard :: "(string \<times> slice) list"
  CountsByShard :: "int \<Rightarrow> int"
  UnreservedIDs :: "string list"

section \<open>Exclusions and reservations\<close>

definition applyExclusions :: "string list \<Rightarrow> string list \<Rightarrow> string list" where
  "applyExclusions ids excludeIDs =
     (if excludeIDs = [] then ids
      else filter (\<lambda>ident. ident \<notin> set excludeIDs) ids)"

text \<open>The inner loop of \<^verbatim>\<open>applyReservations\<close> over one shard's list.\<close>

fun recordSeen :: "string \<Rightarrow> string list \<Rightarrow> (string \<times> string) list \<Rightarrow> error + (string \<times> string) list" where
  "recordSeen shardName [] seenIDs = Inr seenIDs"
| "recordSeen shardName (ident # idList) seenIDs =
     (case map_of seenIDs ident of
        Some prev \<Rightarrow> Inl (DuplicateReservation ident prev shardName)
      | None \<Rightarrow> recordSeen shardName idList (seenIDs @ [(ident, shardName)]))"

text \<open>
  The outer loop over the entries of \<^verbatim>\<open>reservedMap\<close>. The keys of a Go map are distinct,
  so \<^verbatim>\<open>info.IDsByShard[shardName] = idList\<close> always adds an entry.
\<close>

fun reserveEntries :: "int \<Rightarrow> (string \<times> slice) list \<Rightarrow> shardReservations \<Rightarrow> (string \<times> string) list
    \<Rightarrow> error + shardReservations \<times> (string \<times> string) list" where
  "reserveEntries shardCount [] info seenIDs = Inr (info, seenIDs)"
| "reserveEntries shardCount ((shardName, idList) # rest) info seenIDs =
     (case fmt_Sscanf_shard shardName of
        None \<Rightarrow> Inl (InvalidShardName shardName)
      | Some shardIndex \<Rightarrow>
          if shardIndex < 0 \<or> shardIndex \<ge> shardCount then Inl (ShardOutOfRange shardName shardCount)
          else (case recordSeen shardName (elems idList) seenIDs of
                  Inl e \<Rightarrow> Inl e
                | Inr seenIDs' \<Rightarrow>
                    reserveEntries shardCount rest
                      (info\<lparr>IDsByShard := IDsByShard info @ [(shardName, idList)],
                            CountsByShard := (CountsByShard info)(shardIndex := int (length (elems idList)))\<rparr>)
                      seenIDs'))"

definition applyReservations :: "string list \<Rightarrow> (string \<times> slice) list \<Rightarrow> int \<Rightarrow> error + shardReservations" where
  "applyReservations ids reservedMap shardCount =
     (let info = \<lparr>IDsByShard = [], CountsByShard = (\<lambda>_. 0), UnreservedIDs = ids\<rparr> in
      if reservedMap = [] then Inr info
      else (case reserveEntries shardCount reservedMap info [] of
              Inl e \<Rightarrow> Inl e
            | Inr (info', seenIDs) \<Rightarrow>
                if seenIDs \<noteq> []
                then Inr (info'\<lparr>UnreservedIDs := filter (\<lambda>ident. ident \<notin> set (map fst seenIDs)) ids\<rparr>)
                else Inr info'))"

section \<open>Sequencing\<close>

text \<open>
  \<^verbatim>\<open>sortIDsNumerically\<close> sorts by the value of \<^verbatim>\<open>strconv.Atoi\<close>. \<^verbatim>\<open>slices.SortFunc\<close> is
  modelled by the library's sort on that key; Go's sort is not stable, so statements
  about the order of a sorted bucket are made for identifiers with distinct values. The
  comparison function returns \<^verbatim>\<open>aInt - bInt\<close>; between values that are not negative the
  difference does not wrap and has the sign of the comparison, so statements about the
  order are also made for identifiers whose values are not negative.
\<close>

definition sortIDsNumerically :: "string list \<Rightarrow> string list" where
  "sortIDsNumerically ids = sort_key strconv_Atoi ids"

definition createSeededRNG :: "'g stdlib \<Rightarrow> string \<Rightarrow> 'g" where
  "createSeededRNG L seed =
     rand_NewSource L (binary_BigEndian_Uint64 (take 8 (sha256_Sum256 L seed)))"

text \<open>The loop \<^verbatim>\<open>for i := len(shuffled) - 1; i > 0; i--\<close> of \<^verbatim>\<open>shuffleIDs\<close>.\<close>

fun shuffleLoop :: "'g stdlib \<Rightarrow> nat \<Rightarrow> 'g \<Rightarrow> string list \<Rightarrow> string list" where
  "shuffleLoop L 0 rng shuffled = shuffled"
| "shuffleLoop L (Suc i) rng shuffled =
     (case rand_Intn L rng (Suc i + 1) of
        (j, rng') \<Rightarrow>
          shuffleLoop L i rng' (shuffled[Suc i := shuffled ! j, j := shuffled ! Suc i]))"

definition shuffleIDs :: "'g stdlib \<Rightarrow> string list \<Rightarrow> string \<Rightarrow> string list" where
  "shuffleIDs L ids seed = shuffleLoop L (length ids - 1) (createSeededRNG L seed) ids"

definition sortAndShuffleIfSeed :: "'g stdlib \<Rightarrow> string list \<Rightarrow> string \<Rightarrow> string list" where
  "sortAndShuffleIfSeed L ids seed =
     (if seed = [] then ids else shuffleIDs L (sortIDsNumerically ids) seed)"

section \<open>The common tail of the four strategies\<close>

text \<open>
  Every strategy ends with the same two loops: the reserved identifiers of each entry of
  \<^verbatim>\<open>reservations.IDsByShard\<close> are put in front of the bucket whose index is scanned from
  the entry's name (\<open>idx\<close> keeps its zero value when the scan fails), and every bucket is
  sorted in place.
\<close>

definition shardIndexOf :: "string \<Rightarrow> int" where
  "shardIndexOf shardName = (case fmt_Sscanf_shard shardName of None \<Rightarrow> 0 | Some i \<Rightarrow> i)"

fun mergeReserved :: "(string \<times> slice) list \<Rightarrow> slice list \<Rightarrow> error + slice list" where
  "mergeReserved [] shards = Inr shards"
| "mergeReserved ((shardName, reservedIDs) # rest) shards =
     (let idx = shardIndexOf shardName in
      if idx < 0 \<or> idx \<ge> int (length shards) then Inl Panic
      else mergeReserved rest
             (shards[nat idx := go_append reservedIDs (elems (shards ! nat idx))]))"

definition mergeAndSort :: "shardReservations option \<Rightarrow> slice list \<Rightarrow> error + slice list" where
  "mergeAndSort reservations shards =
     (case (case reservations of
              None \<Rightarrow> Inr shards
            | Some r \<Rightarrow> mergeReserved (IDsByShard r) shards) of
        Inl e \<Rightarrow> Inl e
      | Inr merged \<Rightarrow> Inr (map (map_option sortIDsNumerically) merged))"

definition unreservedOf :: "string list \<Rightarrow> shardReservations option \<Rightarrow> string list" where
  "unreservedOf ids reservations =
     (case reservations of None \<Rightarrow> ids | Some r \<Rightarrow> UnreservedIDs r)"

text \<open>\<^verbatim>\<open>s[lo:hi]\<close> on a slice whose capacity is its length.\<close>

definition go_slice :: "string list \<Rightarrow> int \<Rightarrow> int \<Rightarrow> error + string list" where
  "go_slice xs lo hi =
     (if 0 \<le> lo \<and> lo \<le> hi \<and> hi \<le> int (length xs)
      then Inr (take (nat (hi - lo)) (drop (nat lo) xs))
      else Inl Panic)"

section \<open>Round-robin\<close>

fun roundRobinLoop :: "nat \<Rightarrow> nat \<Rightarrow> string list \<Rightarrow> slice list \<Rightarrow> slice list" where
  "roundRobinLoop shardCount i [] shards = shards"
| "roundRobinLoop shardCount i (ident # rest) shards =
     roundRobinLoop shardCount (Suc i) rest
       (shards[i mod shardCount := go_append (shards ! (i mod shardCount)) [ident]])"

definition shardByRoundRobin :: "'g stdlib \<Rightarrow> string list \<Rightarrow> int \<Rightarrow> string \<Rightarrow> shardReservations option
    \<Rightarrow> error + slice list" where
  "shardByRoundRobin L ids shardCount0 seed reservations =
     (let shardCount = (if shardCount0 \<le> 0 then 1 else shardCount0);
          unreservedIDs = unreservedOf ids reservations;
          shards = replicate (nat shardCount) None;
          distributionIDs = sortAndShuffleIfSeed L unreservedIDs seed
      in mergeAndSort reservations (roundRobinLoop (nat shardCount) 0 distributionIDs shards))"

section \<open>Percentage\<close>

text \<open>
  \<^verbatim>\<open>int(float64(totalIDs) * float64(percentage) / 100.0)\<close>. While the product is below
  \<open>2^53\<close> in absolute value both factors and the product are exact in \<^verbatim>\<open>float64\<close>, the
  rounded quotient has the integer part of the exact one, and the conversion truncates
  towards zero. Otherwise the value is the library parameter.
\<close>

definition percentOf :: "'g stdlib \<Rightarrow> int \<Rightarrow> int \<Rightarrow> int" where
  "percentOf L totalIDs percentage =
     (let p = totalIDs * percentage in
      if - (2 ^ 53) < p \<and> p < 2 ^ 53
      then (if 0 \<le> p then p div 100 else - ((- p) div 100))
      else float64_percent L totalIDs percentage)"

fun percentageLoop :: "'g stdlib \<Rightarrow> string list \<Rightarrow> string list \<Rightarrow> int \<Rightarrow> shardReservations option
    \<Rightarrow> int \<Rightarrow> int \<Rightarrow> int list \<Rightarrow> int \<Rightarrow> slice list \<Rightarrow> error + slice list" where
  "percentageLoop L unreservedIDs distributionIDs totalIDs reservations shardCount i [] currentIndex
       shards = Inr shards"
| "percentageLoop L unreservedIDs distributionIDs totalIDs reservations shardCount i (percentage # rest)
       currentIndex shards =
     (let shardSize0 =
            (if i = shardCount - 1 then wrap64 (int (length unreservedIDs) - currentIndex)
             else (case reservations of
                     None \<Rightarrow> percentOf L totalIDs percentage
                   | Some r \<Rightarrow> wrap64 (percentOf L totalIDs percentage - CountsByShard r i)));
          shardSize =
            (if wrap64 (currentIndex + shardSize0) > int (length unreservedIDs)
             then wrap64 (int (length unreservedIDs) - currentIndex) else shardSize0)
      in if shardSize > 0
         then (case go_slice distributionIDs currentIndex (wrap64 (currentIndex + shardSize)) of
                 Inl e \<Rightarrow> Inl e
               | Inr s \<Rightarrow>
                   percentageLoop L unreservedIDs distributionIDs totalIDs reservations shardCount
                     (i + 1) rest (wrap64 (currentIndex + shardSize)) (shards[nat i := Some s]))
         else percentageLoop L unreservedIDs distributionIDs totalIDs reservations shardCount (i + 1)
                rest currentIndex shards)"

definition shardByPercentage :: "'g stdlib \<Rightarrow> string list \<Rightarrow> int list \<Rightarrow> string \<Rightarrow> shardReservations option
    \<Rightarrow> error + slice list" where
  "shardByPercentage L ids percentages seed reservations =
     (let unreservedIDs = unreservedOf ids reservations;
          totalIDs = int (length ids);
          shardCount = int (length percentages);
          shards = replicate (length percentages) None
      in if unreservedIDs = [] then Inr shards
         else (case percentageLoop L unreservedIDs (sortAndShuffleIfSeed L unreservedIDs seed) totalIDs
                      reservations shardCount 0 percentages 0 shards of
                 Inl e \<Rightarrow> Inl e
               | Inr distributed \<Rightarrow> mergeAndSort reservations distributed))"

section \<open>Size\<close>

fun sizeLoop :: "string list \<Rightarrow> string list \<Rightarrow> shardReservations option \<Rightarrow> int \<Rightarrow> int list \<Rightarrow> int
    \<Rightarrow> slice list \<Rightarrow> error + slice list" where
  "sizeLoop unreservedIDs distributionIDs reservations i [] currentIndex shards = Inr shards"
| "sizeLoop unreservedIDs distributionIDs reservations i (sz # rest) currentIndex shards =
     (let shardSize =
            (if sz = - 1 then wrap64 (int (length unreservedIDs) - currentIndex)
             else (let s = (case reservations of
                              None \<Rightarrow> sz
                            | Some r \<Rightarrow> wrap64 (sz - CountsByShard r i)) in
                   if wrap64 (currentIndex + s) > int (length unreservedIDs)
                   then wrap64 (int (length unreservedIDs) - currentIndex) else s))
      in if shardSize > 0 \<and> currentIndex < int (length unreservedIDs)
         then (case go_slice distributionIDs currentIndex (wrap64 (currentIndex + shardSize)) of
                 Inl e \<Rightarrow> Inl e
               | Inr s \<Rightarrow>
                   sizeLoop unreservedIDs distributionIDs reservations (i + 1) rest
                     (wrap64 (currentIndex + shardSize)) (shards[nat i := Some s]))
         else sizeLoop unreservedIDs distributionIDs reservations (i + 1) rest currentIndex
                (shards[nat i := Some []]))"

definition shardBySize :: "'g stdlib \<Rightarrow> string list \<Rightarrow> int list \<Rightarrow> string \<Rightarrow> shardReservations option
    \<Rightarrow> error + slice list" where
  "shardBySize L ids sizes seed reservations =
     (let unreservedIDs = unreservedOf ids reservations;
          shards = replicate (length sizes) None
      in if unreservedIDs = [] then Inr shards
         else (case sizeLoop unreservedIDs (sortAndShuffleIfSeed L unreservedIDs seed) reservations
                      0 sizes 0 shards of
                 Inl e \<Rightarrow> Inl e
               | Inr distributed \<Rightarrow> mergeAndSort reservations distributed))"

section \<open>Rendezvous\<close>

definition rendezvousWeight :: "'g stdlib \<Rightarrow> string \<Rightarrow> nat \<Rightarrow> string \<Rightarrow> 64 word" where
  "rendezvousWeight L ident shardIdx seed =
     binary_BigEndian_Uint64
       (take 8 (sha256_Sum256 L (ident @ '':shard_'' @ fmt_decimal shardIdx @ '':'' @ seed)))"

text \<open>The inner loop \<^verbatim>\<open>for shardIdx := range shardCount\<close>, started from weight 0 and shard 0.\<close>

definition selectStep :: "'g stdlib \<Rightarrow> string \<Rightarrow> string \<Rightarrow> 64 word \<times> nat \<Rightarrow> nat \<Rightarrow> 64 word \<times> nat" where
  "selectStep L ident seed st shardIdx =
     (case st of
        (highestWeight, selectedShard) \<Rightarrow>
          let weight = rendezvousWeight L ident shardIdx seed in
          if weight > highestWeight then (weight, shardIdx) else (highestWeight, selectedShard))"

definition selectShard :: "'g stdlib \<Rightarrow> string \<Rightarrow> string \<Rightarrow> nat \<Rightarrow> nat" where
  "selectShard L ident seed shardCount =
     snd (foldl (selectStep L ident seed) (0, 0) [0..<shardCount])"

fun rendezvousLoop :: "'g stdlib \<Rightarrow> string \<Rightarrow> nat \<Rightarrow> string list \<Rightarrow> slice list \<Rightarrow> slice list" where
  "rendezvousLoop L seed shardCount [] shards = shards"
| "rendezvousLoop L seed shardCount (ident # rest) shards =
     (let selectedShard = selectShard L ident seed shardCount in
      rendezvousLoop L seed shardCount rest
        (shards[selectedShard := go_append (shards ! selectedShard) [ident]]))"

definition shardByRendezvous :: "'g stdlib \<Rightarrow> string list \<Rightarrow> int \<Rightarrow> string \<Rightarrow> shardReservations option
    \<Rightarrow> error + slice list" where
  "shardByRendezvous L ids shardCount0 seed reservations =
     (let shardCount = (if shardCount0 \<le> 0 then 1 else shardCount0);
          unreservedIDs = unreservedOf ids reservations;
          shards = replicate (nat shardCount) (Some [])
      in mergeAndSort reservations (rendezvousLoop L seed (nat shardCount) unreservedIDs shards))"

section \<open>Strategy dispatch and the pure part of \<^verbatim>\<open>runShard\<close>\<close>

record shardConfig =
  Strategy :: string
  ShardCount :: int
  ShardPercentages :: "int list"
  ShardSizes :: "int list"
  Seed :: string
  ExcludeIDs :: "string list"
  ReservedIDs :: "(string \<times> slice) list"

definition resolveShardCount :: "shardConfig \<Rightarrow> int" where
  "resolveShardCount cfg =
     (if length (ShardPercentages cfg) > 0 then int (length (ShardPercentages cfg))
      else if length (ShardSizes cfg) > 0 then int (length (ShardSizes cfg))
      else ShardCount cfg)"

definition applyStrategy :: "'g stdlib \<Rightarrow> shardConfig \<Rightarrow> string list \<Rightarrow> shardReservations option
    \<Rightarrow> error + slice list" where
  "applyStrategy L cfg ids reservations =
     (if Strategy cfg = ''round-robin'' then shardByRoundRobin L ids (ShardCount cfg) (Seed cfg) reservations
      else if Strategy cfg = ''rendezvous'' then shardByRendezvous L ids (ShardCount cfg) (Seed cfg) reservations
      else if Strategy cfg = ''percentage'' then shardByPercentage L ids (ShardPercentages cfg) (Seed cfg) reservations
      else if Strategy cfg = ''size'' then shardBySize L ids (ShardSizes cfg) (Seed cfg) reservations
      else Inl (UnknownStrategy (Strategy cfg)))"

text \<open>
  \<^verbatim>\<open>runShard\<close> from the fetched identifiers to the buckets written to the output: exclusion,
  reservation, strategy.
\<close>

definition runShard :: "'g stdlib \<Rightarrow> shardConfig \<Rightarrow> string list \<Rightarrow> error + slice list" where
  "runShard L cfg sourceIDs =
     (let filteredIDs = applyExclusions sourceIDs (ExcludeIDs cfg);
          shardCount = resolveShardCount cfg
      in case applyReservations filteredIDs (ReservedIDs cfg) shardCount of
           Inl e \<Rightarrow> Inl e
         | Inr reservations \<Rightarrow> applyStrategy L cfg filteredIDs (Some reservations))"

section \<open>Notions used in the statements\<close>

text \<open>All identifiers of a reservation map, shard after shard, with repetitions.\<close>

definition allReserved :: "(string \<times> slice) list \<Rightarrow> string list" where
  "allReserved rm = concat (map (\<lambda>e. elems (snd e)) rm)"

text \<open>Some key of the reservation map scans to an index outside \<open>[0, shardCount)\<close>.\<close>

definition keyOutOfRange :: "(string \<times> slice) list \<Rightarrow> int \<Rightarrow> bool" where
  "keyOutOfRange rm shardCount =
     list_ex (\<lambda>e. shardIndexOf (fst e) < 0 \<or> shardIndexOf (fst e) \<ge> shardCount) rm"

text \<open>
  Some identifier is in the reservation lists of two different shards: repetitions
  inside one list are removed before the lists are compared.
\<close>

definition reservedInTwoShards :: "(string \<times> slice) list \<Rightarrow> bool" where
  "reservedInTwoShards rm = (\<not> distinct (concat (map (\<lambda>e. remdups (elems (snd e))) rm)))"

text \<open>
  The count that \<^verbatim>\<open>applyReservations\<close> leaves for index \<open>i\<close>: the length of the list of the
  last visited entry whose key scans to \<open>i\<close>, and Go's zero value when there is none.
\<close>

definition countsOf :: "(string \<times> slice) list \<Rightarrow> int \<Rightarrow> int" where
  "countsOf rm i =
     (case filter (\<lambda>e. shardIndexOf (fst e) = i) rm of
        [] \<Rightarrow> 0
      | es \<Rightarrow> int (length (elems (snd (last es)))))"

definition isError :: "error + 'a \<Rightarrow> bool" where
  "isError r = (case r of Inl _ \<Rightarrow> True | Inr _ \<Rightarrow> False)"

text \<open>
  Two auxiliary notions for the loop of \<^verbatim>\<open>applyReservations\<close>: the entries it adds to
  \<^verbatim>\<open>seenIDs\<close>, and its update of \<^verbatim>\<open>CountsByShard\<close> for one entry.
\<close>

definition seenOf :: "(string \<times> slice) list \<Rightarrow> (string \<times> string) list" where
  "seenOf rm = concat (map (\<lambda>e. map (\<lambda>i. (i, fst e)) (elems (snd e))) rm)"

definition countStep :: "(int \<Rightarrow> int) \<Rightarrow> string \<times> slice \<Rightarrow> int \<Rightarrow> int" where
  "countStep c e = c(shardIndexOf (fst e) := int (length (elems (snd e))))"

text \<open>The entries of \<^verbatim>\<open>reservations.IDsByShard\<close>; none for a nil \<^verbatim>\<open>reservations\<close>.\<close>

definition reservedEntries :: "shardReservations option \<Rightarrow> (string \<times> slice) list" where
  "reservedEntries reservations = (case reservations of None \<Rightarrow> [] | Some r \<Rightarrow> IDsByShard r)"

text \<open>The reserved identifiers of the entries whose key scans to index \<open>k\<close>.\<close>

definition reservedAt :: "(string \<times> slice) list \<Rightarrow> nat \<Rightarrow> string list" where
  "reservedAt rm k = allReserved (filter (\<lambda>e. shardIndexOf (fst e) = int k) rm)"

text \<open>
  The number of identifiers each shard receives under the percentage strategy, in the
  words of the specification: every shard but the last gets
  \<open>floor (T * percentage / 100) - reservedCount i\<close>, at most what remains of the
  distributable pool and at least nothing; the last shard gets all that remains.
\<close>

fun percentageTargets :: "int \<Rightarrow> (int \<Rightarrow> int) \<Rightarrow> int \<Rightarrow> int \<Rightarrow> int list \<Rightarrow> nat list" where
  "percentageTargets T reserved remaining i [] = []"
| "percentageTargets T reserved remaining i [p] = [nat remaining]"
| "percentageTargets T reserved remaining i (p # q # ps) =
     (let got = max 0 (min (T * p div 100 - reserved i) remaining)
      in nat got # percentageTargets T reserved (remaining - got) (i + 1) (q # ps))"

text \<open>
  The same for the size strategy: a shard of explicit size \<open>s\<close> gets \<open>s - reservedCount i\<close>,
  at most what remains and at least nothing; an entry \<open>-1\<close> gets all that remains.
\<close>

fun sizeTargets :: "(int \<Rightarrow> int) \<Rightarrow> int \<Rightarrow> int \<Rightarrow> int list \<Rightarrow> nat list" where
  "sizeTargets reserved remaining i [] = []"
| "sizeTargets reserved remaining i (s # ss) =
     (let got = (if s = - 1 then remaining else max 0 (min (s - reserved i) remaining))
      in nat got # sizeTargets reserved (remaining - got) (i + 1) ss)"

text \<open>Consecutive pieces of the given lengths, cut from the front of a list.\<close>

fun carve :: "nat list \<Rightarrow> 'a list \<Rightarrow> 'a list list" where
  "carve [] xs = []"
| "carve (n # ns) xs = take n xs # carve ns (drop n xs)"

definition toSlice :: "string list \<Rightarrow> slice" where
  "toSlice xs = (if xs = [] then None else Some xs)"

text \<open>All identifiers of a list of buckets, bucket after bucket.\<close>

definition allOf :: "slice list \<Rightarrow> string list" where
  "allOf shards = concat (map elems shards)"

text \<open>
  \<^verbatim>\<open>validateShardingParameters\<close> of \<^verbatim>\<open>cmd/validate.go\<close> appends no issue: exactly one of
  count, percentages and sizes is set, the strategy is one of the four and uses the
  parameter that is set, percentages are non-negative and their 64-bit sum is 100, sizes
  are \<open>-1\<close> or at least 1, and \<open>-1\<close> stands only in the last position.
\<close>

definition validateShardingParameters :: "shardConfig \<Rightarrow> bool" where
  "validateShardingParameters cfg =
     (let hasCount = (ShardCount cfg > 0);
          hasPct = (length (ShardPercentages cfg) > 0);
          hasSizes = (length (ShardSizes cfg) > 0);
          setCount = (if hasCount then 1 else 0) + (if hasPct then 1 else 0)
                     + (if hasSizes then 1 else (0 :: nat))
      in setCount = 1
         \<and> Strategy cfg \<in> set [''round-robin'', ''percentage'', ''size'', ''rendezvous'']
         \<and> (if Strategy cfg = ''round-robin'' \<or> Strategy cfg = ''rendezvous''
            then hasCount \<and> \<not> hasPct \<and> \<not> hasSizes
            else if Strategy cfg = ''percentage'' then hasPct \<and> \<not> hasCount \<and> \<not> hasSizes
            else hasSizes \<and> \<not> hasCount \<and> \<not> hasPct)
         \<and> (if hasPct
            then list_all (\<lambda>p. 0 \<le> p) (ShardPercentages cfg)
                 \<and> foldl (\<lambda>sum p. wrap64 (sum + p)) 0 (ShardPercentages cfg) = 100
            else True)
         \<and> (if hasSizes
            then list_all (\<lambda>s. s = - 1 \<or> 1 \<le> s) (ShardSizes cfg)
                 \<and> - 1 \<notin> set (butlast (ShardSizes cfg))
            else True))"


text \<open>
  The reserved count of shard \<open>i\<close> in the words of the specification: the entry of
  \<^verbatim>\<open>CountsByShard\<close>, and 0 when there are no reservations.
\<close>

definition countsFor :: "shardReservations option \<Rightarrow> int \<Rightarrow> int" where
  "countsFor reservations i = (case reservations of None \<Rightarrow> 0 | Some r \<Rightarrow> CountsByShard r i)"

text \<open>
  The inputs on which the 64-bit and \<^verbatim>\<open>float64\<close> arithmetic of the percentage and size
  strategies is exact: fewer than \<open>2^62\<close> identifiers in the pool and in every reservation
  list, every product of the pool size with a percentage below \<open>2^53\<close>, and every sum of
  the pool size with a shard size below \<open>2^63\<close>.
\<close>

definition withinInt64 :: "shardConfig \<Rightarrow> string list \<Rightarrow> bool" where
  "withinInt64 cfg sourceIDs =
     (let n = int (length sourceIDs)
      in n < 2 ^ 62
         \<and> list_all (\<lambda>e. int (length (elems (snd e))) \<le> 2 ^ 62) (ReservedIDs cfg)
         \<and> list_all (\<lambda>p. n * p < 2 ^ 53) (ShardPercentages cfg)
         \<and> list_all (\<lambda>s. s + n < 2 ^ 63) (ShardSizes cfg))"

section \<open>A concrete library instance for evaluation\<close>

text \<open>
  A small stand-in for the library parameters, used only to evaluate the model on
  concrete inputs: a 16-bit polynomial checksum in place of SHA-256, a linear
  congruential generator in place of \<^verbatim>\<open>math/rand\<close>, and 0 for the floating-point
  expression outside its exact range (no evaluation below reaches it).
\<close>

definition demoLib :: "int stdlib" where
  "demoLib =
     \<lparr>sha256_Sum256 =
        (\<lambda>s. let h = foldl (\<lambda>a c. (a * 7919 + of_char c) mod 65521) (7::int) s
             in [of_int (h mod 256), of_int (h div 256)] @ replicate 30 0),
      rand_NewSource = (\<lambda>w. uint w mod 1009),
      rand_draw = (\<lambda>g n. (nat g, (g * 7 + 3) mod 1009)),
      float64_percent = (\<lambda>t p. 0)\<rparr>"

section \<open>Properties of the reservation step\<close>

lemma recordSeen_Inr_iff:
  "recordSeen name ids seen = Inr seen' \<longleftrightarrow>
     (distinct ids \<and> set ids \<inter> fst ` set seen = {} \<and> seen' = seen @ map (\<lambda>i. (i, name)) ids)"
proof (induction ids arbitrary: seen)
  case Nil
  then show ?case by auto
next
  case (Cons a ids)
  show ?case
  proof (cases "map_of seen a")
    case None
    then have "a \<notin> fst ` set seen" by (simp add: map_of_eq_None_iff)
    with None Cons show ?thesis by auto
  next
    case (Some p)
    then have "a \<in> fst ` set seen" by (metis map_of_eq_None_iff option.distinct(1))
    with Some show ?thesis by auto
  qed
qed

lemma recordSeen_Inl:
  "recordSeen name ids seen = Inl e \<Longrightarrow>
     \<exists>i p. e = DuplicateReservation i p name \<and> i \<in> set ids \<and> ((i, p) \<in> set seen \<or> p = name)"
proof (induction ids arbitrary: seen)
  case Nil
  then show ?case by simp
next
  case (Cons a ids)
  show ?case
  proof (cases "map_of seen a")
    case None
    with Cons.prems have "recordSeen name ids (seen @ [(a, name)]) = Inl e" by simp
    from Cons.IH[OF this] show ?thesis by auto
  next
    case (Some p)
    with Cons.prems have "e = DuplicateReservation a p name" by simp
    moreover from Some have "(a, p) \<in> set seen" by (rule map_of_SomeD)
    ultimately show ?thesis by auto
  qed
qed

lemma fst_seenOf: "fst ` set (seenOf rm) = set (allReserved rm)"
  by (induction rm) (auto simp: seenOf_def allReserved_def image_Un image_image)

lemma reserveEntries_Inr_iff:
  assumes "\<forall>e\<in>set rm. fmt_Sscanf_shard (fst e) \<noteq> None"
  shows "reserveEntries n rm info seen = Inr (info', seen') \<longleftrightarrow>
     (\<not> keyOutOfRange rm n \<and> distinct (allReserved rm) \<and> set (allReserved rm) \<inter> fst ` set seen = {} \<and>
      seen' = seen @ seenOf rm \<and>
      info' = info\<lparr>IDsByShard := IDsByShard info @ rm,
                   CountsByShard := foldl countStep (CountsByShard info) rm\<rparr>)"
  using assms
proof (induction rm arbitrary: info seen)
  case Nil
  then show ?case by (auto simp: keyOutOfRange_def allReserved_def seenOf_def)
next
  case (Cons e rm)
  obtain k l where e: "e = (k, l)" by (cases e)
  from Cons.prems e obtain idx where idx: "fmt_Sscanf_shard k = Some idx" by auto
  then have sidx: "shardIndexOf k = idx" by (simp add: shardIndexOf_def)
  from Cons.prems have rest: "\<forall>e\<in>set rm. fmt_Sscanf_shard (fst e) \<noteq> None" by simp
  show ?case
  proof (cases "idx < 0 \<or> idx \<ge> n")
    case True
    then have L: "reserveEntries n (e # rm) info seen \<noteq> Inr (info', seen')"
      using e idx by auto
    from True have R: "keyOutOfRange (e # rm) n"
      using e sidx by (auto simp: keyOutOfRange_def)
    show ?thesis using L R by blast
  next
    case inrange: False
    show ?thesis
    proof (cases "recordSeen k (elems l) seen")
      case (Inl err)
      then have "\<not> (distinct (elems l) \<and> set (elems l) \<inter> fst ` set seen = {})"
        using recordSeen_Inr_iff[of k "elems l" seen] by auto
      then have "\<not> (distinct (allReserved (e # rm)) \<and> set (allReserved (e # rm)) \<inter> fst ` set seen = {})"
        using e by (auto simp: allReserved_def)
      moreover have "reserveEntries n (e # rm) info seen \<noteq> Inr (info', seen')"
        using Inl e idx inrange by simp
      ultimately show ?thesis by blast
    next
      case (Inr seen1)
      then have s1: "distinct (elems l)" "set (elems l) \<inter> fst ` set seen = {}"
        "seen1 = seen @ map (\<lambda>i. (i, k)) (elems l)"
        using recordSeen_Inr_iff[of k "elems l" seen seen1] by auto
      let ?info1 = "info\<lparr>IDsByShard := IDsByShard info @ [(k, l)],
                       CountsByShard := (CountsByShard info)(idx := int (length (elems l)))\<rparr>"
      have step: "reserveEntries n (e # rm) info seen = reserveEntries n rm ?info1 seen1"
        using e idx inrange Inr by simp
      have fs: "fst ` set seen1 = fst ` set seen \<union> set (elems l)"
        using s1(3) by (auto simp: image_Un image_image)
      have A: "(distinct (allReserved rm) \<and> set (allReserved rm) \<inter> fst ` set seen1 = {}) \<longleftrightarrow>
               (distinct (allReserved (e # rm)) \<and> set (allReserved (e # rm)) \<inter> fst ` set seen = {})"
        using s1(1,2) fs e by (auto simp: allReserved_def)
      have B: "keyOutOfRange (e # rm) n = keyOutOfRange rm n"
        using e sidx inrange by (auto simp: keyOutOfRange_def)
      have C: "seen1 @ seenOf rm = seen @ seenOf (e # rm)"
        using s1(3) e by (simp add: seenOf_def)
      have D: "?info1\<lparr>IDsByShard := IDsByShard ?info1 @ rm,
                       CountsByShard := foldl countStep (CountsByShard ?info1) rm\<rparr>
             = info\<lparr>IDsByShard := IDsByShard info @ e # rm,
                   CountsByShard := foldl countStep (CountsByShard info) (e # rm)\<rparr>"
        using e sidx by (simp add: countStep_def)
      have "reserveEntries n (e # rm) info seen = Inr (info', seen') \<longleftrightarrow>
            reserveEntries n rm ?info1 seen1 = Inr (info', seen')"
        by (simp only: step)
      also have "\<dots> \<longleftrightarrow>
          (\<not> keyOutOfRange rm n \<and> distinct (allReserved rm) \<and> set (allReserved rm) \<inter> fst ` set seen1 = {} \<and>
           seen' = seen1 @ seenOf rm \<and>
           info' = ?info1\<lparr>IDsByShard := IDsByShard ?info1 @ rm,
                       CountsByShard := foldl countStep (CountsByShard ?info1) rm\<rparr>)"
        by (rule Cons.IH[OF rest])
      also have "\<dots> \<longleftrightarrow>
          (\<not> keyOutOfRange (e # rm) n \<and>
           (distinct (allReserved rm) \<and> set (allReserved rm) \<inter> fst ` set seen1 = {}) \<and>
           seen' = seen @ seenOf (e # rm) \<and>
           info' = info\<lparr>IDsByShard := IDsByShard info @ e # rm,
                   CountsByShard := foldl countStep (CountsByShard info) (e # rm)\<rparr>)"
        by (simp only: B C D conj_assoc)
      also have "\<dots> \<longleftrightarrow>
          (\<not> keyOutOfRange (e # rm) n \<and>
           (distinct (allReserved (e # rm)) \<and> set (allReserved (e # rm)) \<inter> fst ` set seen = {}) \<and>
           seen' = seen @ seenOf (e # rm) \<and>
           info' = info\<lparr>IDsByShard := IDsByShard info @ e # rm,
                   CountsByShard := foldl countStep (CountsByShard info) (e # rm)\<rparr>)"
        by (simp only: A)
      finally show ?thesis by (simp only: conj_assoc)
    qed
  qed
qed

lemma reserveEntries_Inl:
  assumes "\<forall>e\<in>set rm. fmt_Sscanf_shard (fst e) \<noteq> None"
      and "reserveEntries n rm info seen = Inl err"
  shows "(\<exists>e\<in>set rm. err = ShardOutOfRange (fst e) n \<and>
             (shardIndexOf (fst e) < 0 \<or> shardIndexOf (fst e) \<ge> n)) \<or>
         (\<exists>i p c lc. err = DuplicateReservation i p c \<and> (c, lc) \<in> set rm \<and> i \<in> set (elems lc) \<and>
             ((i, p) \<in> set seen \<or> (\<exists>lp. (p, lp) \<in> set rm \<and> i \<in> set (elems lp))))"
  using assms
proof (induction rm arbitrary: info seen)
  case Nil
  then show ?case by simp
next
  case (Cons e rm)
  obtain k l where e: "e = (k, l)" by (cases e)
  from Cons.prems e obtain idx where idx: "fmt_Sscanf_shard k = Some idx" by auto
  then have sidx: "shardIndexOf k = idx" by (simp add: shardIndexOf_def)
  from Cons.prems have rest: "\<forall>e\<in>set rm. fmt_Sscanf_shard (fst e) \<noteq> None" by simp
  show ?case
  proof (cases "idx < 0 \<or> idx \<ge> n")
    case True
    then have "err = ShardOutOfRange k n" using Cons.prems(2) e idx by auto
    then show ?thesis using True e sidx by auto
  next
    case inrange: False
    show ?thesis
    proof (cases "recordSeen k (elems l) seen")
      case (Inl err')
      then have "err = err'" using Cons.prems(2) e idx inrange by simp
      with recordSeen_Inl[OF Inl] obtain i p where
        ip: "err = DuplicateReservation i p k" "i \<in> set (elems l)" "(i, p) \<in> set seen \<or> p = k"
        by auto
      have "(k, l) \<in> set (e # rm)" using e by simp
      then show ?thesis using ip by blast
    next
      case (Inr seen1)
      then have s1: "seen1 = seen @ map (\<lambda>i. (i, k)) (elems l)"
        using recordSeen_Inr_iff[of k "elems l" seen seen1] by auto
      have "\<exists>info1. reserveEntries n rm info1 seen1 = Inl err"
        using Cons.prems(2) e idx inrange Inr by auto
      then obtain info1 where "reserveEntries n rm info1 seen1 = Inl err" ..
      from Cons.IH[OF rest this]
      consider (range) "\<exists>e\<in>set rm. err = ShardOutOfRange (fst e) n \<and>
             (shardIndexOf (fst e) < 0 \<or> shardIndexOf (fst e) \<ge> n)"
        | (dup) i p c lc where "err = DuplicateReservation i p c" "(c, lc) \<in> set rm" "i \<in> set (elems lc)"
             "(i, p) \<in> set seen1 \<or> (\<exists>lp. (p, lp) \<in> set rm \<and> i \<in> set (elems lp))"
        by blast
      then show ?thesis
      proof cases
        case range
        then show ?thesis by auto
      next
        case dup
        from dup(4) s1 have "(i, p) \<in> set seen \<or> (\<exists>lp. (p, lp) \<in> set (e # rm) \<and> i \<in> set (elems lp))"
          using e by auto
        moreover have "(c, lc) \<in> set (e # rm)" using dup(2) by simp
        ultimately show ?thesis using dup(1,3) by blast
      qed
    qed
  qed
qed

lemma foldl_countStep:
  "foldl countStep c rm i =
     (case filter (\<lambda>e. shardIndexOf (fst e) = i) rm of
        [] \<Rightarrow> c i
      | es \<Rightarrow> int (length (elems (snd (last es)))))"
proof (induction rm arbitrary: c)
  case Nil
  then show ?case by simp
next
  case (Cons e rm)
  have "foldl countStep c (e # rm) i =
          (case filter (\<lambda>e. shardIndexOf (fst e) = i) rm of
             [] \<Rightarrow> countStep c e i
           | es \<Rightarrow> int (length (elems (snd (last es)))))"
    by (simp add: Cons.IH)
  also have "\<dots> = (case filter (\<lambda>e. shardIndexOf (fst e) = i) (e # rm) of
             [] \<Rightarrow> c i
           | es \<Rightarrow> int (length (elems (snd (last es)))))"
    by (cases "shardIndexOf (fst e) = i"; cases "filter (\<lambda>e. shardIndexOf (fst e) = i) rm")
       (auto simp: countStep_def)
  finally show ?case .
qed

lemma applyReservations_Inr_iff:
  assumes "\<forall>e\<in>set rm. fmt_Sscanf_shard (fst e) \<noteq> None"
  shows "applyReservations ids rm n = Inr r \<longleftrightarrow>
     (\<not> keyOutOfRange rm n \<and> distinct (allReserved rm) \<and>
      r = \<lparr>IDsByShard = rm, CountsByShard = countsOf rm,
           UnreservedIDs = filter (\<lambda>i. i \<notin> set (allReserved rm)) ids\<rparr>)"
proof (cases "rm = []")
  case True
  then show ?thesis
    by (auto simp: applyReservations_def keyOutOfRange_def allReserved_def countsOf_def fun_eq_iff)
next
  case False
  let ?info = "\<lparr>IDsByShard = [], CountsByShard = (\<lambda>_. 0), UnreservedIDs = ids\<rparr>"
  have cnt: "foldl countStep (\<lambda>_. 0) rm = countsOf rm"
    by (rule ext) (simp add: foldl_countStep countsOf_def)
  have filt: "seenOf rm = [] \<Longrightarrow> filter (\<lambda>i. i \<notin> set (allReserved rm)) ids = ids"
    using fst_seenOf[of rm] by simp
  show ?thesis
  proof (cases "reserveEntries n rm ?info []")
    case (Inl err)
    then have "\<not> (\<not> keyOutOfRange rm n \<and> distinct (allReserved rm))"
      using reserveEntries_Inr_iff[OF assms, of n ?info "[]"] by auto
    moreover have "applyReservations ids rm n \<noteq> Inr r"
      using Inl False by (simp add: applyReservations_def)
    ultimately show ?thesis by blast
  next
    case (Inr res)
    obtain info' seen' where res: "res = (info', seen')" by (cases res)
    with Inr reserveEntries_Inr_iff[OF assms, of n ?info "[]" info' seen']
    have ok: "\<not> keyOutOfRange rm n" "distinct (allReserved rm)" "seen' = seenOf rm"
      and info': "info' = \<lparr>IDsByShard = rm, CountsByShard = countsOf rm, UnreservedIDs = ids\<rparr>"
      by (simp_all add: cnt)
    have "applyReservations ids rm n =
          Inr \<lparr>IDsByShard = rm, CountsByShard = countsOf rm,
               UnreservedIDs = filter (\<lambda>i. i \<notin> set (allReserved rm)) ids\<rparr>"
      using Inr res False info' ok(3) filt fst_seenOf[of rm]
      by (simp add: applyReservations_def)
    then show ?thesis using ok by auto
  qed
qed

lemma recordSeen_Inl_first:
  "recordSeen name ids seen = Inl e \<Longrightarrow>
     \<exists>xs i ys p. ids = xs @ i # ys \<and> e = DuplicateReservation i p name \<and> distinct xs \<and>
        set xs \<inter> fst ` set seen = {} \<and> map_of (seen @ map (\<lambda>x. (x, name)) xs) i = Some p"
proof (induction ids arbitrary: seen)
  case Nil
  then show ?case by simp
next
  case (Cons a ids)
  show ?case
  proof (cases "map_of seen a")
    case None
    then have a: "a \<notin> fst ` set seen" by (simp add: map_of_eq_None_iff)
    from None Cons.prems have "recordSeen name ids (seen @ [(a, name)]) = Inl e" by simp
    from Cons.IH[OF this] obtain xs i ys p where
      x: "ids = xs @ i # ys" "e = DuplicateReservation i p name" "distinct xs"
         "set xs \<inter> fst ` set (seen @ [(a, name)]) = {}"
         "map_of ((seen @ [(a, name)]) @ map (\<lambda>x. (x, name)) xs) i = Some p"
      by (elim exE conjE)
    have 1: "a # ids = (a # xs) @ i # ys" using x(1) by simp
    have 2: "distinct (a # xs)" using x(3,4) by auto
    have 3: "set (a # xs) \<inter> fst ` set seen = {}" using x(4) a by auto
    have 4: "map_of (seen @ map (\<lambda>x. (x, name)) (a # xs)) i = Some p" using x(5) by simp
    show ?thesis
      by (rule exI[of _ "a # xs"], rule exI[of _ i], rule exI[of _ ys], rule exI[of _ p])
         (rule conjI[OF 1 conjI[OF x(2) conjI[OF 2 conjI[OF 3 4]]]])
  next
    case (Some p)
    with Cons.prems have e: "e = DuplicateReservation a p name" by simp
    have 1: "a # ids = [] @ a # ids" by simp
    have 4: "map_of (seen @ map (\<lambda>x. (x, name)) []) a = Some p" using Some by simp
    show ?thesis
      by (rule exI[of _ "[]"], rule exI[of _ a], rule exI[of _ ids], rule exI[of _ p])
         (simp add: e Some)
  qed
qed

lemma seenOf_Cons: "seenOf ((k, l) # rm) = map (\<lambda>i. (i, k)) (elems l) @ seenOf rm"
  by (simp add: seenOf_def)

lemma allReserved_Cons: "allReserved ((k, l) # rm) = elems l @ allReserved rm"
  by (simp add: allReserved_def)

lemma reserveEntries_Inl_first:
  assumes "\<forall>e\<in>set rm. fmt_Sscanf_shard (fst e) \<noteq> None"
      and "reserveEntries n rm info seen = Inl err"
  shows "(\<exists>k l. (k, l) \<in> set rm \<and> err = ShardOutOfRange k n \<and>
             (shardIndexOf k < 0 \<or> n \<le> shardIndexOf k)) \<or>
         (\<exists>pre c lc post xs i ys p. rm = pre @ (c, lc) # post \<and> elems lc = xs @ i # ys \<and>
             err = DuplicateReservation i p c \<and> distinct (allReserved pre @ xs) \<and>
             set (allReserved pre @ xs) \<inter> fst ` set seen = {} \<and>
             map_of (seen @ seenOf pre @ map (\<lambda>x. (x, c)) xs) i = Some p)"
  using assms
proof (induction rm arbitrary: info seen)
  case Nil
  then show ?case by simp
next
  case (Cons e rm)
  obtain k l where e: "e = (k, l)" by (cases e)
  from Cons.prems e obtain idx where idx: "fmt_Sscanf_shard k = Some idx" by auto
  then have sidx: "shardIndexOf k = idx" by (simp add: shardIndexOf_def)
  from Cons.prems have rest: "\<forall>e\<in>set rm. fmt_Sscanf_shard (fst e) \<noteq> None" by simp
  show ?case
  proof (cases "idx < 0 \<or> idx \<ge> n")
    case True
    then have "err = ShardOutOfRange k n" using Cons.prems(2) e idx by auto
    moreover have "(k, l) \<in> set (e # rm)" using e by simp
    moreover have "shardIndexOf k < 0 \<or> n \<le> shardIndexOf k" using True sidx by simp
    ultimately have "\<exists>k l. (k, l) \<in> set (e # rm) \<and> err = ShardOutOfRange k n \<and>
             (shardIndexOf k < 0 \<or> n \<le> shardIndexOf k)"
      by (intro exI[of _ k] exI[of _ l] conjI)
    then show ?thesis by (rule disjI1)
  next
    case inrange: False
    show ?thesis
    proof (cases "recordSeen k (elems l) seen")
      case (Inl err')
      then have "err = err'" using Cons.prems(2) e idx inrange by simp
      from recordSeen_Inl_first[OF Inl] obtain xs i ys p where
        x0: "elems l = xs @ i # ys" "err' = DuplicateReservation i p k" "distinct xs"
           "set xs \<inter> fst ` set seen = {}" "map_of (seen @ map (\<lambda>x. (x, k)) xs) i = Some p"
        by (elim exE conjE)
      note x = x0(1) x0(2)[folded \<open>err = err'\<close>] x0(3,4,5)
      have 1: "e # rm = [] @ (k, l) # rm" using e by simp
      have 4: "distinct (allReserved [] @ xs)" using x(3) by (simp add: allReserved_def)
      have 5: "set (allReserved [] @ xs) \<inter> fst ` set seen = {}" using x(4) by (simp add: allReserved_def)
      have 6: "map_of (seen @ seenOf [] @ map (\<lambda>x. (x, k)) xs) i = Some p"
        using x(5) by (simp add: seenOf_def)
      have "\<exists>pre c lc post xs i ys p. e # rm = pre @ (c, lc) # post \<and> elems lc = xs @ i # ys \<and>
             err = DuplicateReservation i p c \<and> distinct (allReserved pre @ xs) \<and>
             set (allReserved pre @ xs) \<inter> fst ` set seen = {} \<and>
             map_of (seen @ seenOf pre @ map (\<lambda>x. (x, c)) xs) i = Some p"
        by (rule exI[of _ "[]"], rule exI[of _ k], rule exI[of _ l], rule exI[of _ rm],
            rule exI[of _ xs], rule exI[of _ i], rule exI[of _ ys], rule exI[of _ p])
           (rule conjI[OF 1 conjI[OF x(1) conjI[OF x(2) conjI[OF 4 conjI[OF 5 6]]]]])
      then show ?thesis by (rule disjI2)
    next
      case (Inr seen1)
      then have s1: "distinct (elems l)" "set (elems l) \<inter> fst ` set seen = {}"
        "seen1 = seen @ map (\<lambda>i. (i, k)) (elems l)"
        using recordSeen_Inr_iff[of k "elems l" seen seen1] by auto
      have fs: "fst ` set seen1 = fst ` set seen \<union> set (elems l)"
        using s1(3) by (auto simp: image_Un image_image)
      have "\<exists>info1. reserveEntries n rm info1 seen1 = Inl err"
        using Cons.prems(2) e idx inrange Inr by auto
      then obtain info1 where "reserveEntries n rm info1 seen1 = Inl err" ..
      note ih = Cons.IH[OF rest this]
      show ?thesis
      proof (rule disjE[OF ih])
        assume "\<exists>k l. (k, l) \<in> set rm \<and> err = ShardOutOfRange k n \<and>
             (shardIndexOf k < 0 \<or> n \<le> shardIndexOf k)"
        then obtain k' l' where r: "(k', l') \<in> set rm" "err = ShardOutOfRange k' n"
          "shardIndexOf k' < 0 \<or> n \<le> shardIndexOf k'" by (elim exE conjE)
        have "(k', l') \<in> set (e # rm)" using r(1) by simp
        then have "\<exists>k l. (k, l) \<in> set (e # rm) \<and> err = ShardOutOfRange k n \<and>
             (shardIndexOf k < 0 \<or> n \<le> shardIndexOf k)"
          using r(2,3) by (intro exI[of _ k'] exI[of _ l'] conjI)
        then show ?thesis by (rule disjI1)
      next
        assume "\<exists>pre c lc post xs i ys p. rm = pre @ (c, lc) # post \<and> elems lc = xs @ i # ys \<and>
             err = DuplicateReservation i p c \<and> distinct (allReserved pre @ xs) \<and>
             set (allReserved pre @ xs) \<inter> fst ` set seen1 = {} \<and>
             map_of (seen1 @ seenOf pre @ map (\<lambda>x. (x, c)) xs) i = Some p"
        then obtain pre c lc post xs i ys p where dup: "rm = pre @ (c, lc) # post" "elems lc = xs @ i # ys"
             "err = DuplicateReservation i p c" "distinct (allReserved pre @ xs)"
             "set (allReserved pre @ xs) \<inter> fst ` set seen1 = {}"
             "map_of (seen1 @ seenOf pre @ map (\<lambda>x. (x, c)) xs) i = Some p"
          by (elim exE conjE)
        have d1: "set (allReserved pre @ xs) \<inter> set (elems l) = {}"
          using dup(5) unfolding fs by blast
        have d2: "set (allReserved pre @ xs) \<inter> fst ` set seen = {}"
          using dup(5) unfolding fs by blast
        have 1: "e # rm = ((k, l) # pre) @ (c, lc) # post" using e dup(1) by simp
        have "distinct (elems l @ (allReserved pre @ xs))"
          using s1(1) dup(4) d1 by (simp only: distinct_append) blast
        then have 4: "distinct (allReserved ((k, l) # pre) @ xs)"
          by (simp only: allReserved_Cons append_assoc)
        have "set (elems l @ (allReserved pre @ xs)) \<inter> fst ` set seen = {}"
          using s1(2) d2 by (simp only: set_append) blast
        then have 5: "set (allReserved ((k, l) # pre) @ xs) \<inter> fst ` set seen = {}"
          by (simp only: allReserved_Cons append_assoc)
        have 6: "map_of (seen @ seenOf ((k, l) # pre) @ map (\<lambda>x. (x, c)) xs) i = Some p"
          using dup(6) by (simp only: s1(3) seenOf_Cons append_assoc)
        have "\<exists>pre c lc post xs i ys p. e # rm = pre @ (c, lc) # post \<and> elems lc = xs @ i # ys \<and>
             err = DuplicateReservation i p c \<and> distinct (allReserved pre @ xs) \<and>
             set (allReserved pre @ xs) \<inter> fst ` set seen = {} \<and>
             map_of (seen @ seenOf pre @ map (\<lambda>x. (x, c)) xs) i = Some p"
          by (rule exI[of _ "(k, l) # pre"], rule exI[of _ c], rule exI[of _ lc], rule exI[of _ post],
              rule exI[of _ xs], rule exI[of _ i], rule exI[of _ ys], rule exI[of _ p])
             (rule conjI[OF 1 conjI[OF dup(2) conjI[OF dup(3) conjI[OF 4 conjI[OF 5 6]]]]])
        then show ?thesis by (rule disjI2)
      qed
    qed
  qed
qed

lemma in_seenOf: "(i, p) \<in> set (seenOf rm) \<longleftrightarrow> (\<exists>lp. (p, lp) \<in> set rm \<and> i \<in> set (elems lp))"
  by (induction rm) (auto simp: seenOf_def)

lemma applyReservations_Inl_cases:
  assumes "\<forall>e\<in>set rm. fmt_Sscanf_shard (fst e) \<noteq> None"
      and "applyReservations ids rm n = Inl err"
  shows "(\<exists>k l. (k, l) \<in> set rm \<and> err = ShardOutOfRange k n \<and>
             (shardIndexOf k < 0 \<or> n \<le> shardIndexOf k)) \<or>
         (\<exists>pre c lc post xs i ys p. rm = pre @ (c, lc) # post \<and> elems lc = xs @ i # ys \<and>
             err = DuplicateReservation i p c \<and> distinct (allReserved pre @ xs) \<and>
             ((\<exists>lp. (p, lp) \<in> set pre \<and> i \<in> set (elems lp)) \<or> (p = c \<and> i \<in> set xs)))"
proof -
  let ?info = "\<lparr>IDsByShard = [], CountsByShard = (\<lambda>_. 0), UnreservedIDs = ids\<rparr>"
  have "reserveEntries n rm ?info [] = Inl err"
    using assms(2) by (auto simp: applyReservations_def Let_def split: if_splits sum.splits prod.splits)
  note first = reserveEntries_Inl_first[OF assms(1) this]
  show ?thesis
  proof (rule disjE[OF first])
    assume "\<exists>k l. (k, l) \<in> set rm \<and> err = ShardOutOfRange k n \<and>
             (shardIndexOf k < 0 \<or> n \<le> shardIndexOf k)"
    then show ?thesis by (rule disjI1)
  next
    assume "\<exists>pre c lc post xs i ys p. rm = pre @ (c, lc) # post \<and> elems lc = xs @ i # ys \<and>
             err = DuplicateReservation i p c \<and> distinct (allReserved pre @ xs) \<and>
             set (allReserved pre @ xs) \<inter> fst ` set [] = {} \<and>
             map_of ([] @ seenOf pre @ map (\<lambda>x. (x, c)) xs) i = Some p"
    then obtain pre c lc post xs i ys p where dup: "rm = pre @ (c, lc) # post" "elems lc = xs @ i # ys"
         "err = DuplicateReservation i p c" "distinct (allReserved pre @ xs)"
         "map_of ([] @ seenOf pre @ map (\<lambda>x. (x, c)) xs) i = Some p"
      by (elim exE conjE)
    from dup(5) have "(i, p) \<in> set (seenOf pre @ map (\<lambda>x. (x, c)) xs)"
      by (intro map_of_SomeD) simp
    then have "(i, p) \<in> set (seenOf pre) \<or> (i, p) \<in> set (map (\<lambda>x. (x, c)) xs)" by simp
    then have w: "(\<exists>lp. (p, lp) \<in> set pre \<and> i \<in> set (elems lp)) \<or> (p = c \<and> i \<in> set xs)"
      unfolding in_seenOf by auto
    have "\<exists>pre c lc post xs i ys p. rm = pre @ (c, lc) # post \<and> elems lc = xs @ i # ys \<and>
             err = DuplicateReservation i p c \<and> distinct (allReserved pre @ xs) \<and>
             ((\<exists>lp. (p, lp) \<in> set pre \<and> i \<in> set (elems lp)) \<or> (p = c \<and> i \<in> set xs))"
      by (rule exI[of _ pre], rule exI[of _ c], rule exI[of _ lc], rule exI[of _ post],
          rule exI[of _ xs], rule exI[of _ i], rule exI[of _ ys], rule exI[of _ p])
         (rule conjI[OF dup(1) conjI[OF dup(2) conjI[OF dup(3) conjI[OF dup(4) w]]]])
    then show ?thesis by (rule disjI2)
  qed
qed

lemma keyOutOfRange_iff:
  "keyOutOfRange rm n \<longleftrightarrow> (\<exists>k l. (k, l) \<in> set rm \<and> (shardIndexOf k < 0 \<or> n \<le> shardIndexOf k))"
  by (induction rm) (auto simp: keyOutOfRange_def)

lemma duplicate_not_distinct:
  assumes "rm = pre @ (c, lc) # post" and "elems lc = xs @ i # ys"
      and "(\<exists>lp. (p, lp) \<in> set pre \<and> i \<in> set (elems lp)) \<or> (p = c \<and> i \<in> set xs)"
  shows "\<not> distinct (allReserved rm)"
proof -
  have a: "allReserved rm = allReserved pre @ (xs @ i # ys) @ allReserved post"
    using assms(1,2) by (simp add: allReserved_def)
  from assms(3) have "i \<in> set (allReserved pre) \<or> i \<in> set xs"
    by (force simp: allReserved_def)
  then show ?thesis unfolding a by auto
qed

text \<open>
  Claim C9, as stated: for keys that scan, \<^verbatim>\<open>applyReservations\<close> returns an error exactly
  when a key is out of range or an identifier is in the lists of two different shards.
  The claim fails for an identifier repeated inside the list of one shard: the single
  \<^verbatim>\<open>seenIDs\<close> map reports it as a duplicate, naming the same shard twice.
\<close>

theorem C9_counterexample:
  "\<not> (isError (applyReservations [''1''] [(''shard_0'', Some [''1'', ''1''])] 1) \<longleftrightarrow>
       keyOutOfRange [(''shard_0'', Some [''1'', ''1''])] 1 \<or>
       reservedInTwoShards [(''shard_0'', Some [''1'', ''1''])])"
  by code_simp

text \<open>
  Claim C9, amended: for keys that scan, \<^verbatim>\<open>applyReservations\<close> returns an error exactly
  when a key is out of range or an identifier occurs more than once in the reservation
  lists taken together (in two lists, or twice in one). When no key is out of range a
  repeated identifier gives the duplicate error, and when no identifier is repeated a
  key out of range gives the range error. The duplicate error names the identifier \<open>i\<close>
  at the first place, in the order in which the lists are visited, where an identifier
  occurs that was met before; it names the key \<open>c\<close> of the list that holds this place,
  and the key \<open>p\<close> of the list that holds the earlier occurrence, which is \<open>c\<close> itself only
  when the earlier occurrence is in the same list. On success the unreserved pool is the
  input pool without the reserved identifiers, in its order, the lists are recorded under
  their keys and the counts under their indices.
\<close>

theorem C9_applyReservations:
  assumes "\<forall>e\<in>set rm. fmt_Sscanf_shard (fst e) \<noteq> None"
  shows "(isError (applyReservations ids rm n) \<longleftrightarrow>
            keyOutOfRange rm n \<or> \<not> distinct (allReserved rm))
       \<and> (\<not> keyOutOfRange rm n \<and> \<not> distinct (allReserved rm) \<longrightarrow>
            (\<exists>i p c. applyReservations ids rm n = Inl (DuplicateReservation i p c)))
       \<and> (keyOutOfRange rm n \<and> distinct (allReserved rm) \<longrightarrow>
            (\<exists>k l. (k, l) \<in> set rm \<and> (shardIndexOf k < 0 \<or> n \<le> shardIndexOf k) \<and>
                   applyReservations ids rm n = Inl (ShardOutOfRange k n)))
       \<and> (\<forall>i p c. applyReservations ids rm n = Inl (DuplicateReservation i p c) \<longrightarrow>
            (\<exists>pre lc post xs ys. rm = pre @ (c, lc) # post \<and> elems lc = xs @ i # ys \<and>
                distinct (allReserved pre @ xs) \<and>
                ((\<exists>lp. (p, lp) \<in> set pre \<and> i \<in> set (elems lp)) \<or> (p = c \<and> i \<in> set xs))))
       \<and> (\<forall>r. applyReservations ids rm n = Inr r \<longrightarrow>
            UnreservedIDs r = filter (\<lambda>i. i \<notin> set (allReserved rm)) ids \<and>
            IDsByShard r = rm \<and> CountsByShard r = countsOf rm)"
proof -
  have A: "isError (applyReservations ids rm n) \<longleftrightarrow>
          keyOutOfRange rm n \<or> \<not> distinct (allReserved rm)"
  proof (cases "applyReservations ids rm n")
    case (Inl err)
    then have "\<not> (\<not> keyOutOfRange rm n \<and> distinct (allReserved rm))"
      using applyReservations_Inr_iff[OF assms, of ids n] by auto
    then show ?thesis using Inl by (auto simp: isError_def)
  next
    case (Inr r)
    then show ?thesis
      using applyReservations_Inr_iff[OF assms, of ids n r] by (simp add: isError_def)
  qed
  have B: "\<exists>i p c. applyReservations ids rm n = Inl (DuplicateReservation i p c)"
    if h: "\<not> keyOutOfRange rm n \<and> \<not> distinct (allReserved rm)"
  proof -
    from A h obtain err where err: "applyReservations ids rm n = Inl err"
      by (cases "applyReservations ids rm n") (auto simp: isError_def)
    note cases = applyReservations_Inl_cases[OF assms err]
    show ?thesis
    proof (rule disjE[OF cases])
      assume "\<exists>k l. (k, l) \<in> set rm \<and> err = ShardOutOfRange k n \<and>
             (shardIndexOf k < 0 \<or> n \<le> shardIndexOf k)"
      then have "keyOutOfRange rm n" unfolding keyOutOfRange_iff by blast
      then show ?thesis using h by simp
    next
      assume "\<exists>pre c lc post xs i ys p. rm = pre @ (c, lc) # post \<and> elems lc = xs @ i # ys \<and>
             err = DuplicateReservation i p c \<and> distinct (allReserved pre @ xs) \<and>
             ((\<exists>lp. (p, lp) \<in> set pre \<and> i \<in> set (elems lp)) \<or> (p = c \<and> i \<in> set xs))"
      then obtain i p c where "err = DuplicateReservation i p c" by (elim exE conjE)
      then show ?thesis using err by simp
    qed
  qed
  have C: "\<exists>k l. (k, l) \<in> set rm \<and> (shardIndexOf k < 0 \<or> n \<le> shardIndexOf k) \<and>
                   applyReservations ids rm n = Inl (ShardOutOfRange k n)"
    if h: "keyOutOfRange rm n \<and> distinct (allReserved rm)"
  proof -
    from A h obtain err where err: "applyReservations ids rm n = Inl err"
      by (cases "applyReservations ids rm n") (auto simp: isError_def)
    note cases = applyReservations_Inl_cases[OF assms err]
    show ?thesis
    proof (rule disjE[OF cases])
      assume "\<exists>k l. (k, l) \<in> set rm \<and> err = ShardOutOfRange k n \<and>
             (shardIndexOf k < 0 \<or> n \<le> shardIndexOf k)"
      then obtain k l where "(k, l) \<in> set rm" "err = ShardOutOfRange k n"
        "shardIndexOf k < 0 \<or> n \<le> shardIndexOf k" by (elim exE conjE)
      then show ?thesis using err by (intro exI[of _ k] exI[of _ l]) simp
    next
      assume "\<exists>pre c lc post xs i ys p. rm = pre @ (c, lc) # post \<and> elems lc = xs @ i # ys \<and>
             err = DuplicateReservation i p c \<and> distinct (allReserved pre @ xs) \<and>
             ((\<exists>lp. (p, lp) \<in> set pre \<and> i \<in> set (elems lp)) \<or> (p = c \<and> i \<in> set xs))"
      then obtain pre c lc post xs i ys p where "rm = pre @ (c, lc) # post" "elems lc = xs @ i # ys"
        "(\<exists>lp. (p, lp) \<in> set pre \<and> i \<in> set (elems lp)) \<or> (p = c \<and> i \<in> set xs)"
        by (elim exE conjE)
      then have "\<not> distinct (allReserved rm)" by (rule duplicate_not_distinct)
      then show ?thesis using h by simp
    qed
  qed
  have D: "\<exists>pre lc post xs ys. rm = pre @ (c, lc) # post \<and> elems lc = xs @ i # ys \<and>
                distinct (allReserved pre @ xs) \<and>
                ((\<exists>lp. (p, lp) \<in> set pre \<and> i \<in> set (elems lp)) \<or> (p = c \<and> i \<in> set xs))"
    if dup: "applyReservations ids rm n = Inl (DuplicateReservation i p c)" for i p c
  proof -
    note cases = applyReservations_Inl_cases[OF assms dup]
    show ?thesis
    proof (rule disjE[OF cases])
      assume "\<exists>k l. (k, l) \<in> set rm \<and> DuplicateReservation i p c = ShardOutOfRange k n \<and>
             (shardIndexOf k < 0 \<or> n \<le> shardIndexOf k)"
      then show ?thesis by simp
    next
      assume "\<exists>pre c' lc post xs i' ys p'. rm = pre @ (c', lc) # post \<and> elems lc = xs @ i' # ys \<and>
             DuplicateReservation i p c = DuplicateReservation i' p' c' \<and> distinct (allReserved pre @ xs) \<and>
             ((\<exists>lp. (p', lp) \<in> set pre \<and> i' \<in> set (elems lp)) \<or> (p' = c' \<and> i' \<in> set xs))"
      then obtain pre c' lc post xs i' ys p' where x: "rm = pre @ (c', lc) # post" "elems lc = xs @ i' # ys"
        "DuplicateReservation i p c = DuplicateReservation i' p' c'" "distinct (allReserved pre @ xs)"
        "(\<exists>lp. (p', lp) \<in> set pre \<and> i' \<in> set (elems lp)) \<or> (p' = c' \<and> i' \<in> set xs)"
        by (elim exE conjE)
      from x(3) have eq: "i' = i" "p' = p" "c' = c" by simp_all
      show ?thesis
        by (rule exI[of _ pre], rule exI[of _ lc], rule exI[of _ post], rule exI[of _ xs], rule exI[of _ ys])
           (rule conjI[OF x(1)[unfolded eq] conjI[OF x(2)[unfolded eq] conjI[OF x(4) x(5)[unfolded eq]]]])
    qed
  qed
  have E: "UnreservedIDs r = filter (\<lambda>i. i \<notin> set (allReserved rm)) ids \<and>
            IDsByShard r = rm \<and> CountsByShard r = countsOf rm"
    if "applyReservations ids rm n = Inr r" for r
  proof -
    from that have r: "r = \<lparr>IDsByShard = rm, CountsByShard = countsOf rm,
                     UnreservedIDs = filter (\<lambda>i. i \<notin> set (allReserved rm)) ids\<rparr>"
      using applyReservations_Inr_iff[OF assms, of ids n r] by simp
    show ?thesis by (simp add: r)
  qed
  have B': "\<not> keyOutOfRange rm n \<and> \<not> distinct (allReserved rm) \<longrightarrow>
            (\<exists>i p c. applyReservations ids rm n = Inl (DuplicateReservation i p c))"
    by (rule impI) (rule B)
  have C': "keyOutOfRange rm n \<and> distinct (allReserved rm) \<longrightarrow>
            (\<exists>k l. (k, l) \<in> set rm \<and> (shardIndexOf k < 0 \<or> n \<le> shardIndexOf k) \<and>
                   applyReservations ids rm n = Inl (ShardOutOfRange k n))"
    by (rule impI) (rule C)
  have D': "\<forall>i p c. applyReservations ids rm n = Inl (DuplicateReservation i p c) \<longrightarrow>
            (\<exists>pre lc post xs ys. rm = pre @ (c, lc) # post \<and> elems lc = xs @ i # ys \<and>
                distinct (allReserved pre @ xs) \<and>
                ((\<exists>lp. (p, lp) \<in> set pre \<and> i \<in> set (elems lp)) \<or> (p = c \<and> i \<in> set xs)))"
    by (intro allI impI) (rule D)
  have E': "\<forall>r. applyReservations ids rm n = Inr r \<longrightarrow>
            UnreservedIDs r = filter (\<lambda>i. i \<notin> set (allReserved rm)) ids \<and>
            IDsByShard r = rm \<and> CountsByShard r = countsOf rm"
    by (intro allI impI) (rule E)
  show ?thesis by (rule conjI[OF A conjI[OF B' conjI[OF C' conjI[OF D' E']]]])
qed

theorem C9_witness:
  "list_all (\<lambda>e. fmt_Sscanf_shard (fst e) \<noteq> None)
      [(''shard_0'', Some [''2'']), (''shard_1'', Some [''3'', ''4''])]
   \<and> (\<exists>r. applyReservations [''1'', ''2'', ''3''] [(''shard_0'', Some [''2'']), (''shard_1'', Some [''3'', ''4''])] 2 = Inr r
          \<and> UnreservedIDs r = [''1'']
          \<and> IDsByShard r = [(''shard_0'', Some [''2'']), (''shard_1'', Some [''3'', ''4''])]
          \<and> CountsByShard r 0 = 1 \<and> CountsByShard r 1 = 2)
   \<and> isError (applyReservations [''1'', ''2'', ''3''] [(''shard_0'', Some [''2'']), (''shard_2'', Some [''3''])] 2)
   \<and> keyOutOfRange [(''shard_0'', Some [''2'']), (''shard_2'', Some [''3''])] 2
   \<and> applyReservations [''1'', ''2'', ''3''] [(''shard_0'', Some [''2'']), (''shard_2'', Some [''3''])] 2
       = Inl (ShardOutOfRange ''shard_2'' 2)
   \<and> \<not> keyOutOfRange [(''shard_0'', Some [''1'']), (''shard_1'', Some [''1''])] 2
   \<and> \<not> distinct (allReserved [(''shard_0'', Some [''1'']), (''shard_1'', Some [''1''])])
   \<and> (\<exists>i p c. applyReservations [''1'', ''2'', ''3''] [(''shard_0'', Some [''1'']), (''shard_1'', Some [''1''])] 2
         = Inl (DuplicateReservation i p c))
   \<and> applyReservations [''1'', ''2'', ''3''] [(''shard_0'', Some [''1'']), (''shard_1'', Some [''1''])] 2
       = Inl (DuplicateReservation ''1'' ''shard_0'' ''shard_1'')"
proof -
  let ?rm = "[(''shard_0'', Some [''2'']), (''shard_1'', Some [''3'', ''4''])]"
  let ?bad = "[(''shard_0'', Some [''2'']), (''shard_2'', Some [''3''])]"
  let ?dup = "[(''shard_0'', Some [''1'']), (''shard_1'', Some [''1''])]"
  have h: "\<forall>e\<in>set ?rm. fmt_Sscanf_shard (fst e) \<noteq> None" by code_simp
  have hb: "\<forall>e\<in>set ?bad. fmt_Sscanf_shard (fst e) \<noteq> None" by code_simp
  have hd: "\<forall>e\<in>set ?dup. fmt_Sscanf_shard (fst e) \<noteq> None" by code_simp
  have h': "list_all (\<lambda>e. fmt_Sscanf_shard (fst e) \<noteq> None) ?rm" by code_simp
  have ok: "\<not> isError (applyReservations [''1'', ''2'', ''3''] ?rm 2)" by code_simp
  then obtain r where r: "applyReservations [''1'', ''2'', ''3''] ?rm 2 = Inr r"
    by (cases "applyReservations [''1'', ''2'', ''3''] ?rm 2") (auto simp: isError_def)
  note t = C9_applyReservations[OF h, of "[''1'', ''2'', ''3'']" 2]
  note tb = C9_applyReservations[OF hb, of "[''1'', ''2'', ''3'']" 2]
  note td = C9_applyReservations[OF hd, of "[''1'', ''2'', ''3'']" 2]
  from t[THEN conjunct2, THEN conjunct2, THEN conjunct2, THEN conjunct2, rule_format, OF r]
  have f: "UnreservedIDs r = filter (\<lambda>i. i \<notin> set (allReserved ?rm)) [''1'', ''2'', ''3'']"
    "IDsByShard r = ?rm" "CountsByShard r = countsOf ?rm"
    by simp_all
  have e1: "filter (\<lambda>i. i \<notin> set (allReserved ?rm)) [''1'', ''2'', ''3''] = [''1'']" by code_simp
  have e2: "countsOf ?rm 0 = 1" "countsOf ?rm 1 = 2" by code_simp+
  have A: "\<exists>r. applyReservations [''1'', ''2'', ''3''] ?rm 2 = Inr r
          \<and> UnreservedIDs r = [''1''] \<and> IDsByShard r = ?rm
          \<and> CountsByShard r 0 = 1 \<and> CountsByShard r 1 = 2"
    using r f e1 e2 by (intro exI[of _ r]) simp
  have kb: "keyOutOfRange ?bad 2" by code_simp
  have eb: "isError (applyReservations [''1'', ''2'', ''3''] ?bad 2)"
    using tb[THEN conjunct1] kb by simp
  have "case applyReservations [''1'', ''2'', ''3''] ?bad 2 of
          Inl e \<Rightarrow> e = ShardOutOfRange ''shard_2'' 2 | Inr r \<Rightarrow> False"
    by code_simp
  then have vb: "applyReservations [''1'', ''2'', ''3''] ?bad 2 = Inl (ShardOutOfRange ''shard_2'' 2)"
    by (simp split: sum.splits)
  have kd: "\<not> keyOutOfRange ?dup 2" by code_simp
  have dd: "\<not> distinct (allReserved ?dup)" by code_simp
  note D = td[THEN conjunct2, THEN conjunct1, rule_format, OF conjI[OF kd dd]]
  have "case applyReservations [''1'', ''2'', ''3''] ?dup 2 of
          Inl e \<Rightarrow> e = DuplicateReservation ''1'' ''shard_0'' ''shard_1'' | Inr r \<Rightarrow> False"
    by code_simp
  then have vd: "applyReservations [''1'', ''2'', ''3''] ?dup 2
       = Inl (DuplicateReservation ''1'' ''shard_0'' ''shard_1'')"
    by (simp split: sum.splits)
  show ?thesis
    by (rule conjI[OF h' conjI[OF A conjI[OF eb conjI[OF kb conjI[OF vb conjI[OF kd conjI[OF dd conjI[OF D vd]]]]]]]])
qed

section \<open>Slices, sorting and the reservation merge\<close>

lemma elems_simps [simp]: "elems None = []" "elems (Some xs) = xs"
  by (simp_all add: elems_def)

lemma elems_go_append [simp]: "elems (go_append s xs) = elems s @ xs"
  by (simp add: go_append_def)

lemma go_append_Nil [simp]: "go_append s [] = s"
  by (simp add: go_append_def)

lemma go_append_go_append: "go_append (go_append s xs) ys = go_append s (xs @ ys)"
  by (simp add: go_append_def)

lemma mset_sortIDs [simp]: "mset (sortIDsNumerically xs) = mset xs"
  by (simp add: sortIDsNumerically_def)

lemma set_sortIDs [simp]: "set (sortIDsNumerically xs) = set xs"
  by (simp add: sortIDsNumerically_def)

lemma length_sortIDs [simp]: "length (sortIDsNumerically xs) = length xs"
  by (simp add: sortIDsNumerically_def)

lemma elems_map_option_sort [simp]:
  "elems (map_option sortIDsNumerically s) = sortIDsNumerically (elems s)"
  by (cases s) (simp_all add: sortIDsNumerically_def)

lemma allReserved_simps [simp]:
  "allReserved [] = []"
  "allReserved (e # rm) = elems (snd e) @ allReserved rm"
  "allReserved (rm @ rm') = allReserved rm @ allReserved rm'"
  by (simp_all add: allReserved_def)

lemma keyOutOfRange_simps [simp]:
  "keyOutOfRange [] n = False"
  "keyOutOfRange (e # rm) n =
     (shardIndexOf (fst e) < 0 \<or> shardIndexOf (fst e) \<ge> n \<or> keyOutOfRange rm n)"
  by (auto simp: keyOutOfRange_def)

lemma mergeReserved_length:
  "mergeReserved rm shards = Inr out \<Longrightarrow> length out = length shards"
proof (induction rm arbitrary: shards)
  case Nil
  then show ?case by simp
next
  case (Cons e rm)
  obtain k l where e: "e = (k, l)" by (cases e)
  from Cons.prems e have
    "mergeReserved rm (shards[nat (shardIndexOf k) := go_append l (elems (shards ! nat (shardIndexOf k)))]) = Inr out"
    by (simp add: Let_def split: if_splits)
  from Cons.IH[OF this] show ?case by simp
qed

lemma mergeReserved_returns_iff:
  "(\<exists>out. mergeReserved rm shards = Inr out) \<longleftrightarrow> \<not> keyOutOfRange rm (int (length shards))"
proof (induction rm arbitrary: shards)
  case Nil
  then show ?case by simp
next
  case (Cons e rm)
  obtain k l where e: "e = (k, l)" by (cases e)
  show ?case using Cons.IH e by (simp add: Let_def)
qed

lemma mergeReserved_nth:
  assumes "mergeReserved rm shards = Inr out" and "k < length shards"
  shows "mset (elems (out ! k)) = mset (elems (shards ! k)) + mset (reservedAt rm k)"
  using assms
proof (induction rm arbitrary: shards)
  case Nil
  then show ?case by (simp add: reservedAt_def)
next
  case (Cons e rm)
  obtain n l where e: "e = (n, l)" by (cases e)
  let ?i = "nat (shardIndexOf n)"
  let ?shards' = "shards[?i := go_append l (elems (shards ! ?i))]"
  from Cons.prems e have inr: "0 \<le> shardIndexOf n" "shardIndexOf n < int (length shards)"
    and step: "mergeReserved rm ?shards' = Inr out"
    by (simp_all add: Let_def split: if_splits)
  from Cons.prems(2) have "k < length ?shards'" by simp
  from Cons.IH[OF step this]
  have "mset (elems (out ! k)) = mset (elems (?shards' ! k)) + mset (reservedAt rm k)" .
  moreover have "mset (elems (?shards' ! k)) + mset (reservedAt rm k)
      = mset (elems (shards ! k)) + mset (reservedAt (e # rm) k)"
  proof (cases "shardIndexOf n = int k")
    case True
    then have "?i = k" by simp
    then show ?thesis using Cons.prems(2) True e by (simp add: reservedAt_def)
  next
    case False
    then have "?i \<noteq> k" using inr by auto
    then show ?thesis using False e by (simp add: reservedAt_def)
  qed
  ultimately show ?case by simp
qed

lemma reservedEntries_simps [simp]:
  "reservedEntries None = []" "reservedEntries (Some r) = IDsByShard r"
  by (simp_all add: reservedEntries_def)

lemma reservedAt_Nil [simp]: "reservedAt [] k = []"
  by (simp add: reservedAt_def)

lemma mergeAndSort_returns_iff:
  "(\<exists>out. mergeAndSort reservations shards = Inr out) \<longleftrightarrow>
     \<not> keyOutOfRange (reservedEntries reservations) (int (length shards))"
proof (cases reservations)
  case None
  then show ?thesis by (simp add: mergeAndSort_def)
next
  case (Some r)
  show ?thesis
    using mergeReserved_returns_iff[of "IDsByShard r" shards] Some
    by (cases "mergeReserved (IDsByShard r) shards") (auto simp: mergeAndSort_def)
qed

lemma mergeAndSort_length:
  "mergeAndSort reservations shards = Inr out \<Longrightarrow> length out = length shards"
  by (cases reservations)
     (auto simp: mergeAndSort_def split: sum.splits dest: mergeReserved_length)

lemma mergeAndSort_nth:
  assumes "mergeAndSort reservations shards = Inr out" and "k < length shards"
  shows "mset (elems (out ! k)) =
           mset (elems (shards ! k)) + mset (reservedAt (reservedEntries reservations) k)"
proof (cases reservations)
  case None
  with assms show ?thesis by (auto simp: mergeAndSort_def)
next
  case (Some r)
  with assms obtain merged where m: "mergeReserved (IDsByShard r) shards = Inr merged"
    and out: "out = map (map_option sortIDsNumerically) merged"
    by (auto simp: mergeAndSort_def split: sum.splits)
  from mergeReserved_length[OF m] assms(2) have "k < length merged" by simp
  then show ?thesis using mergeReserved_nth[OF m assms(2)] out Some by simp
qed

lemma mergeAndSort_set:
  assumes "mergeAndSort reservations shards = Inr out" and "k < length shards"
  shows "set (elems (out ! k)) =
           set (elems (shards ! k)) \<union> set (reservedAt (reservedEntries reservations) k)"
proof -
  have "set_mset (mset (elems (out ! k))) =
          set_mset (mset (elems (shards ! k)) + mset (reservedAt (reservedEntries reservations) k))"
    by (simp only: mergeAndSort_nth[OF assms])
  then show ?thesis by simp
qed

section \<open>The sequencer keeps the identifiers\<close>

lemma length_shuffleLoop [simp]: "length (shuffleLoop L i g xs) = length xs"
  by (induction i arbitrary: g xs) (simp_all add: rand_Intn_def split: prod.splits)

lemma mset_shuffleLoop: "i < length xs \<Longrightarrow> mset (shuffleLoop L i g xs) = mset xs"
proof (induction i arbitrary: g xs)
  case 0
  then show ?case by simp
next
  case (Suc i)
  obtain r g' where d: "rand_draw L g (Suc (Suc i)) = (r, g')" by (cases "rand_draw L g (Suc (Suc i))")
  let ?j = "r mod Suc (Suc i)"
  let ?xs' = "xs[Suc i := xs ! ?j, ?j := xs ! Suc i]"
  have j: "?j < length xs"
  proof -
    have "?j < Suc (Suc i)" by (rule mod_less_divisor) simp
    then have "?j \<le> Suc i" by linarith
    then show ?thesis using Suc.prems by linarith
  qed
  have "shuffleLoop L (Suc i) g xs = shuffleLoop L i g' ?xs'"
    by (simp add: rand_Intn_def d)
  moreover have "mset (shuffleLoop L i g' ?xs') = mset ?xs'"
    using Suc.prems by (intro Suc.IH) simp
  moreover have "mset ?xs' = mset xs"
    using mset_swap[of ?j xs "Suc i"] j Suc.prems by simp
  ultimately show ?case by simp
qed

lemma mset_shuffleIDs [simp]: "mset (shuffleIDs L ids seed) = mset ids"
proof (cases "ids = []")
  case True
  then show ?thesis by (simp add: shuffleIDs_def)
next
  case False
  then have "length ids - 1 < length ids" by (cases ids) simp_all
  then show ?thesis by (simp add: shuffleIDs_def mset_shuffleLoop)
qed

lemma mset_sortAndShuffleIfSeed [simp]: "mset (sortAndShuffleIfSeed L ids seed) = mset ids"
  by (simp add: sortAndShuffleIfSeed_def)

lemma length_sortAndShuffleIfSeed [simp]: "length (sortAndShuffleIfSeed L ids seed) = length ids"
  using mset_sortAndShuffleIfSeed[of L ids seed] by (metis size_mset)

section \<open>Rendezvous hashing\<close>

lemma select_scan_invariant:
  assumes "0 < n"
  shows "case foldl (selectStep L ident seed) (0, 0) [0..<n] of
           (hw, sel) \<Rightarrow> hw = rendezvousWeight L ident sel seed \<and> sel < n \<and>
             (\<forall>s. s < n \<longrightarrow> rendezvousWeight L ident s seed \<le> hw) \<and>
             (\<forall>s. s < sel \<longrightarrow> rendezvousWeight L ident s seed < hw)"
  using assms
proof (induction n)
  case 0
  then show ?case by simp
next
  case (Suc n)
  show ?case
  proof (cases "n = 0")
    case True
    then show ?thesis by (auto simp: selectStep_def Let_def word_gt_0 not_less)
  next
    case False
    then have "0 < n" by simp
    from Suc.IH[OF this] obtain hw sel where
      st: "foldl (selectStep L ident seed) (0, 0) [0..<n] = (hw, sel)"
      and inv: "hw = rendezvousWeight L ident sel seed" "sel < n"
        "\<forall>s. s < n \<longrightarrow> rendezvousWeight L ident s seed \<le> hw"
        "\<forall>s. s < sel \<longrightarrow> rendezvousWeight L ident s seed < hw"
      by (cases "foldl (selectStep L ident seed) (0, 0) [0..<n]") auto
    have step: "foldl (selectStep L ident seed) (0, 0) [0..<Suc n] = selectStep L ident seed (hw, sel) n"
      using st by simp
    show ?thesis
    proof (cases "rendezvousWeight L ident n seed > hw")
      case True
      then have "selectStep L ident seed (hw, sel) n = (rendezvousWeight L ident n seed, n)"
        by (simp add: selectStep_def)
      then show ?thesis unfolding step using True inv
        by (auto simp: less_Suc_eq intro: less_imp_le order.strict_trans1)
    next
      case False
      then have "selectStep L ident seed (hw, sel) n = (hw, sel)"
        by (simp add: selectStep_def)
      then show ?thesis unfolding step using False inv
        by (auto simp: less_Suc_eq not_less)
    qed
  qed
qed

lemma selectShard_props:
  assumes "0 < n"
  shows "selectShard L ident seed n < n"
    and "\<And>s. s < n \<Longrightarrow> rendezvousWeight L ident s seed \<le> rendezvousWeight L ident (selectShard L ident seed n) seed"
    and "\<And>s. s < selectShard L ident seed n \<Longrightarrow> rendezvousWeight L ident s seed < rendezvousWeight L ident (selectShard L ident seed n) seed"
  using select_scan_invariant[OF assms, of L ident seed]
  by (auto simp: selectShard_def split: prod.splits)

lemma selectShard_Suc:
  assumes "0 < n"
  shows "selectShard L ident seed (Suc n) =
     (if rendezvousWeight L ident n seed > rendezvousWeight L ident (selectShard L ident seed n) seed
      then n else selectShard L ident seed n)"
proof -
  obtain hw sel where st: "foldl (selectStep L ident seed) (0, 0) [0..<n] = (hw, sel)"
    by (cases "foldl (selectStep L ident seed) (0, 0) [0..<n]")
  with select_scan_invariant[OF assms, of L ident seed]
  have hw: "hw = rendezvousWeight L ident sel seed" by simp
  have sel: "selectShard L ident seed n = sel" by (simp add: selectShard_def st)
  have "selectShard L ident seed (Suc n) = snd (selectStep L ident seed (hw, sel) n)"
    by (simp add: selectShard_def st)
  then show ?thesis by (simp add: selectStep_def sel hw)
qed

lemma rendezvousLoop_length [simp]:
  "length (rendezvousLoop L seed n ids shards) = length shards"
  by (induction ids arbitrary: shards) (simp_all add: Let_def)

lemma rendezvousLoop_nth:
  assumes "k < length shards" and "\<forall>i\<in>set ids. selectShard L i seed n < length shards"
  shows "rendezvousLoop L seed n ids shards ! k =
           go_append (shards ! k) (filter (\<lambda>i. selectShard L i seed n = k) ids)"
  using assms
proof (induction ids arbitrary: shards)
  case Nil
  then show ?case by simp
next
  case (Cons a ids)
  let ?s = "selectShard L a seed n"
  let ?shards' = "shards[?s := go_append (shards ! ?s) [a]]"
  have "rendezvousLoop L seed n (a # ids) shards ! k = rendezvousLoop L seed n ids ?shards' ! k"
    by (simp add: Let_def)
  also have "\<dots> = go_append (?shards' ! k) (filter (\<lambda>i. selectShard L i seed n = k) ids)"
    using Cons.prems by (intro Cons.IH) simp_all
  also have "\<dots> = go_append (shards ! k) (filter (\<lambda>i. selectShard L i seed n = k) (a # ids))"
    using Cons.prems by (cases "?s = k") (simp_all add: go_append_go_append)
  finally show ?case .
qed

lemma set_reservedAt_subset: "set (reservedAt rm k) \<subseteq> set (allReserved rm)"
  by (induction rm) (auto simp: reservedAt_def)

lemma shardByRendezvous_buckets:
  assumes "\<not> keyOutOfRange (reservedEntries reservations) (max 1 shardCount)"
  defines "n \<equiv> nat (max 1 shardCount)"
  shows "\<exists>buckets. shardByRendezvous L ids shardCount seed reservations = Inr buckets \<and>
           length buckets = n \<and>
           (\<forall>k<n. mset (elems (buckets ! k)) =
              mset (filter (\<lambda>i. selectShard L i seed n = k) (unreservedOf ids reservations)) +
              mset (reservedAt (reservedEntries reservations) k))"
proof -
  let ?sc = "if shardCount \<le> 0 then 1 else shardCount"
  have sc: "?sc = max 1 shardCount" by auto
  have n: "nat ?sc = n" "0 < n" "int n = max 1 shardCount" by (auto simp: n_def)
  let ?loop = "rendezvousLoop L seed n (unreservedOf ids reservations) (replicate n (Some []))"
  have run: "shardByRendezvous L ids shardCount seed reservations = mergeAndSort reservations ?loop"
    by (simp add: shardByRendezvous_def Let_def n del: max.absorb1 max.absorb2 max.absorb3 max.absorb4)
  have "\<not> keyOutOfRange (reservedEntries reservations) (int (length ?loop))"
    using assms(1) n by simp
  then obtain buckets where b: "mergeAndSort reservations ?loop = Inr buckets"
    using mergeAndSort_returns_iff by blast
  have len: "length buckets = n" using mergeAndSort_length[OF b] by simp
  have "mset (elems (buckets ! k)) =
          mset (filter (\<lambda>i. selectShard L i seed n = k) (unreservedOf ids reservations)) +
          mset (reservedAt (reservedEntries reservations) k)" if "k < n" for k
  proof -
    have "?loop ! k = go_append (replicate n (Some []) ! k)
            (filter (\<lambda>i. selectShard L i seed n = k) (unreservedOf ids reservations))"
      using that by (intro rendezvousLoop_nth) (simp_all add: selectShard_props(1)[OF n(2)])
    then have "elems (?loop ! k) = filter (\<lambda>i. selectShard L i seed n = k) (unreservedOf ids reservations)"
      using that by simp
    then show ?thesis using mergeAndSort_nth[OF b, of k] that by simp
  qed
  then show ?thesis using run b len by auto
qed

lemma shardByRendezvous_member:
  assumes "\<not> keyOutOfRange (reservedEntries reservations) (max 1 shardCount)"
      and "shardByRendezvous L ids shardCount seed reservations = Inr buckets"
      and "k < nat (max 1 shardCount)"
  shows "ident \<in> set (elems (buckets ! k)) \<longleftrightarrow>
           (ident \<in> set (unreservedOf ids reservations) \<and>
            selectShard L ident seed (nat (max 1 shardCount)) = k) \<or>
           ident \<in> set (reservedAt (reservedEntries reservations) k)"
proof -
  from shardByRendezvous_buckets[OF assms(1), of L ids seed] assms(2,3)
  have "mset (elems (buckets ! k)) =
          mset (filter (\<lambda>i. selectShard L i seed (nat (max 1 shardCount)) = k) (unreservedOf ids reservations)) +
          mset (reservedAt (reservedEntries reservations) k)"
    by auto
  then have "set_mset (mset (elems (buckets ! k))) =
          set_mset (mset (filter (\<lambda>i. selectShard L i seed (nat (max 1 shardCount)) = k) (unreservedOf ids reservations)) +
          mset (reservedAt (reservedEntries reservations) k))"
    by simp
  then show ?thesis by auto
qed

lemma keyOutOfRange_mono: "\<not> keyOutOfRange rm n \<Longrightarrow> n \<le> m \<Longrightarrow> \<not> keyOutOfRange rm m"
  by (induction rm) auto

text \<open>
  Claim C4. \<^verbatim>\<open>shardByRendezvous\<close> returns (when every reservation key is in range), and
  every identifier of the distributable pool that is not also in a reservation list is
  in exactly one bucket: the bucket \<open>k\<close> whose weight is the highest, where the weight of
  shard \<open>s\<close> is the first eight bytes, read big-endian, of the digest of
  \<^verbatim>\<open><id>:shard_<s>:<seed>\<close> (the seed is part of the string also when it is empty). No
  weight exceeds that of \<open>k\<close>, and every shard before \<open>k\<close> has a strictly smaller weight:
  on equal weights the first maximum of the scan from 0 is kept.
\<close>

theorem C4_rendezvous_highest_weight:
  fixes W :: "nat \<Rightarrow> 64 word" and L :: "'g stdlib" and ident seed :: string
  assumes "ident \<in> set (unreservedOf ids reservations)"
      and "ident \<notin> set (allReserved (reservedEntries reservations))"
      and "\<not> keyOutOfRange (reservedEntries reservations) (max 1 shardCount)"
  defines "W \<equiv> \<lambda>s. binary_BigEndian_Uint64
                   (take 8 (sha256_Sum256 L (ident @ '':shard_'' @ fmt_decimal s @ '':'' @ seed)))"
  shows "\<exists>buckets k. shardByRendezvous L ids shardCount seed reservations = Inr buckets
           \<and> length buckets = nat (max 1 shardCount) \<and> k < length buckets
           \<and> (\<forall>j. j < length buckets \<longrightarrow> (ident \<in> set (elems (buckets ! j)) \<longleftrightarrow> j = k))
           \<and> (\<forall>s. s < length buckets \<longrightarrow> W s \<le> W k)
           \<and> (\<forall>s. s < k \<longrightarrow> W s < W k)"
proof -
  let ?n = "nat (max 1 shardCount)"
  let ?k = "selectShard L ident seed ?n"
  have n: "0 < ?n" by simp
  have W: "W = (\<lambda>s. rendezvousWeight L ident s seed)"
    by (simp add: W_def rendezvousWeight_def)
  from shardByRendezvous_buckets[OF assms(3), of L ids seed]
  obtain buckets where b: "shardByRendezvous L ids shardCount seed reservations = Inr buckets"
    and len: "length buckets = ?n" by blast
  have k: "?k < ?n" by (rule selectShard_props(1)[OF n])
  have notres: "ident \<notin> set (reservedAt (reservedEntries reservations) j)" for j
    using assms(2) set_reservedAt_subset by blast
  have mem: "ident \<in> set (elems (buckets ! j)) \<longleftrightarrow> j = ?k" if "j < length buckets" for j
  proof -
    have "j < ?n" using that len by simp
    from shardByRendezvous_member[OF assms(3) b this, of ident]
    show ?thesis using assms(1) notres by auto
  qed
  have le: "\<forall>s. s < length buckets \<longrightarrow> W s \<le> W ?k"
    using len W by (simp add: selectShard_props(2)[OF n])
  have lt: "\<forall>s. s < ?k \<longrightarrow> W s < W ?k"
    using W by (simp add: selectShard_props(3)[OF n])
  have kl: "?k < length buckets" using k len by simp
  have "shardByRendezvous L ids shardCount seed reservations = Inr buckets
           \<and> length buckets = nat (max 1 shardCount) \<and> ?k < length buckets
           \<and> (\<forall>j. j < length buckets \<longrightarrow> (ident \<in> set (elems (buckets ! j)) \<longleftrightarrow> j = ?k))
           \<and> (\<forall>s. s < length buckets \<longrightarrow> W s \<le> W ?k)
           \<and> (\<forall>s. s < ?k \<longrightarrow> W s < W ?k)"
    using b len kl mem le lt by simp
  then show ?thesis by (intro exI[of _ buckets] exI[of _ ?k])
qed

theorem C4_witness:
  "''1'' \<in> set (unreservedOf [''1'', ''2'', ''3''] None)
   \<and> ''1'' \<notin> set (allReserved (reservedEntries None))
   \<and> \<not> keyOutOfRange (reservedEntries None) (max 1 3)
   \<and> (\<exists>buckets k. shardByRendezvous demoLib [''1'', ''2'', ''3''] 3 ''x'' None = Inr buckets
           \<and> length buckets = nat (max 1 3) \<and> k < length buckets
           \<and> (\<forall>j. j < length buckets \<longrightarrow> (''1'' \<in> set (elems (buckets ! j)) \<longleftrightarrow> j = k))
           \<and> (\<forall>s. s < length buckets \<longrightarrow>
                 binary_BigEndian_Uint64 (take 8 (sha256_Sum256 demoLib (''1'' @ '':shard_'' @ fmt_decimal s @ '':'' @ ''x'')))
                 \<le> binary_BigEndian_Uint64 (take 8 (sha256_Sum256 demoLib (''1'' @ '':shard_'' @ fmt_decimal k @ '':'' @ ''x''))))
           \<and> (\<forall>s. s < k \<longrightarrow>
                 binary_BigEndian_Uint64 (take 8 (sha256_Sum256 demoLib (''1'' @ '':shard_'' @ fmt_decimal s @ '':'' @ ''x'')))
                 < binary_BigEndian_Uint64 (take 8 (sha256_Sum256 demoLib (''1'' @ '':shard_'' @ fmt_decimal k @ '':'' @ ''x'')))))
   \<and> shardByRendezvous demoLib [''1'', ''2'', ''3''] 3 ''x'' None
       = Inr [Some [''2'', ''3''], Some [''1''], Some []]"
proof -
  have h1: "''1'' \<in> set (unreservedOf [''1'', ''2'', ''3''] None)" by code_simp
  have h2: "''1'' \<notin> set (allReserved (reservedEntries None))" by code_simp
  have h3: "\<not> keyOutOfRange (reservedEntries None) (max 1 3)" by code_simp
  have ev: "shardByRendezvous demoLib [''1'', ''2'', ''3''] 3 ''x'' None
       = Inr [Some [''2'', ''3''], Some [''1''], Some []]" by code_simp
  note t = C4_rendezvous_highest_weight[OF h1 h2 h3, where L = demoLib and seed = "''x''"]
  show ?thesis by (rule conjI[OF h1 conjI[OF h2 conjI[OF h3 conjI[OF t ev]]]])
qed

text \<open>
  Claim C5. For \<open>n \<ge> 1\<close> shards and an identifier of the distributable pool that is not
  reserved, the runs with \<open>n\<close> and with \<open>n + 1\<close> shards both return; the identifier is in
  exactly one bucket \<open>j\<close> of the first, and in exactly one bucket of the second: the new
  shard \<open>n\<close> if its weight is strictly higher than the weight of \<open>j\<close>, and \<open>j\<close> otherwise.
\<close>

theorem C5_rendezvous_minimal_movement:
  fixes W :: "nat \<Rightarrow> 64 word" and L :: "'g stdlib" and ident seed :: string and n :: nat
  assumes "1 \<le> n"
      and "ident \<in> set (unreservedOf ids reservations)"
      and "ident \<notin> set (allReserved (reservedEntries reservations))"
      and "\<not> keyOutOfRange (reservedEntries reservations) (int n)"
  defines "W \<equiv> \<lambda>s. binary_BigEndian_Uint64
                   (take 8 (sha256_Sum256 L (ident @ '':shard_'' @ fmt_decimal s @ '':'' @ seed)))"
  shows "\<exists>old new j.
           shardByRendezvous L ids (int n) seed reservations = Inr old
         \<and> shardByRendezvous L ids (int n + 1) seed reservations = Inr new
         \<and> length old = n \<and> length new = n + 1 \<and> j < n
         \<and> (\<forall>k. k < n \<longrightarrow> (ident \<in> set (elems (old ! k)) \<longleftrightarrow> k = j))
         \<and> (\<forall>k. k < n + 1 \<longrightarrow>
               (ident \<in> set (elems (new ! k)) \<longleftrightarrow> k = (if W j < W n then n else j)))"
proof -
  have W: "W = (\<lambda>s. rendezvousWeight L ident s seed)"
    by (simp add: W_def rendezvousWeight_def)
  have m1: "max 1 (int n) = int n" and m2: "max 1 (int n + 1) = int n + 1"
    using assms(1) by simp_all
  have r1: "\<not> keyOutOfRange (reservedEntries reservations) (max 1 (int n))"
    using assms(4) m1 by simp
  have r2: "\<not> keyOutOfRange (reservedEntries reservations) (max 1 (int n + 1))"
    using keyOutOfRange_mono[OF assms(4), of "int n + 1"] m2 by simp
  from shardByRendezvous_buckets[OF r1, of L ids seed]
  obtain old where old: "shardByRendezvous L ids (int n) seed reservations = Inr old"
    and lo: "length old = n" using m1 by auto
  from shardByRendezvous_buckets[OF r2, of L ids seed]
  obtain new where new: "shardByRendezvous L ids (int n + 1) seed reservations = Inr new"
    and ln: "length new = n + 1" using m2 by (auto simp: nat_add_distrib)
  let ?j = "selectShard L ident seed n"
  have n0: "0 < n" using assms(1) by simp
  have j: "?j < n" by (rule selectShard_props(1)[OF n0])
  have notres: "ident \<notin> set (reservedAt (reservedEntries reservations) k)" for k
    using assms(3) set_reservedAt_subset by blast
  have A: "ident \<in> set (elems (old ! k)) \<longleftrightarrow> k = ?j" if "k < n" for k
  proof -
    have "k < nat (max 1 (int n))" using that m1 by simp
    from shardByRendezvous_member[OF r1 old this, of ident]
    show ?thesis using assms(2) notres m1 by auto
  qed
  have B: "ident \<in> set (elems (new ! k)) \<longleftrightarrow> k = (if W ?j < W n then n else ?j)" if "k < n + 1" for k
  proof -
    have "k < nat (max 1 (int n + 1))" using that m2 by (simp add: nat_add_distrib)
    from shardByRendezvous_member[OF r2 new this, of ident]
    have "ident \<in> set (elems (new ! k)) \<longleftrightarrow> selectShard L ident seed (Suc n) = k"
      using assms(2) notres m2 by (auto simp: nat_add_distrib)
    then show ?thesis using selectShard_Suc[OF n0, of L ident seed] W by auto
  qed
  from old new lo ln j A B show ?thesis by blast
qed

theorem C5_witness:
  "(1::nat) \<le> 2
   \<and> ''4'' \<in> set (unreservedOf [''1'', ''2'', ''3'', ''4''] None)
   \<and> ''4'' \<notin> set (allReserved (reservedEntries None))
   \<and> \<not> keyOutOfRange (reservedEntries None) (int 2)
   \<and> (\<exists>old new j.
           shardByRendezvous demoLib [''1'', ''2'', ''3'', ''4''] (int 2) ''x'' None = Inr old
         \<and> shardByRendezvous demoLib [''1'', ''2'', ''3'', ''4''] (int 2 + 1) ''x'' None = Inr new
         \<and> length old = 2 \<and> length new = 2 + 1 \<and> j < 2
         \<and> (\<forall>k. k < 2 \<longrightarrow> (''4'' \<in> set (elems (old ! k)) \<longleftrightarrow> k = j))
         \<and> (\<forall>k. k < 2 + 1 \<longrightarrow>
               (''4'' \<in> set (elems (new ! k)) \<longleftrightarrow>
                k = (if binary_BigEndian_Uint64 (take 8 (sha256_Sum256 demoLib (''4'' @ '':shard_'' @ fmt_decimal j @ '':'' @ ''x'')))
                        < binary_BigEndian_Uint64 (take 8 (sha256_Sum256 demoLib (''4'' @ '':shard_'' @ fmt_decimal 2 @ '':'' @ ''x'')))
                     then 2 else j))))
   \<and> shardByRendezvous demoLib [''1'', ''2'', ''3'', ''4''] 2 ''x'' None
       = Inr [Some [''2'', ''3''], Some [''1'', ''4'']]
   \<and> shardByRendezvous demoLib [''1'', ''2'', ''3'', ''4''] 3 ''x'' None
       = Inr [Some [''2'', ''3''], Some [''1''], Some [''4'']]"
proof -
  have h1: "(1::nat) \<le> 2" by simp
  have h2: "''4'' \<in> set (unreservedOf [''1'', ''2'', ''3'', ''4''] None)" by code_simp
  have h3: "''4'' \<notin> set (allReserved (reservedEntries None))" by code_simp
  have h4: "\<not> keyOutOfRange (reservedEntries None) (int 2)" by code_simp
  have e1: "shardByRendezvous demoLib [''1'', ''2'', ''3'', ''4''] 2 ''x'' None
       = Inr [Some [''2'', ''3''], Some [''1'', ''4'']]" by code_simp
  have e2: "shardByRendezvous demoLib [''1'', ''2'', ''3'', ''4''] 3 ''x'' None
       = Inr [Some [''2'', ''3''], Some [''1''], Some [''4'']]" by code_simp
  from C5_rendezvous_minimal_movement[OF h1 h2 h3 h4, where L = demoLib and seed = "''x''"] h1 h2 h3 h4 e1 e2
  show ?thesis by blast
qed

section \<open>The percentage and size loops\<close>

lemma length_carve [simp]: "length (carve ns xs) = length ns"
  by (induction ns arbitrary: xs) simp_all

lemma concat_carve: "concat (carve ns xs) = take (sum_list ns) xs"
proof (induction ns arbitrary: xs)
  case Nil
  then show ?case by simp
next
  case (Cons n ns)
  have "take n xs @ take (sum_list ns) (drop n xs) = take (n + sum_list ns) xs"
    by (simp add: take_add)
  then show ?case by (simp add: Cons.IH)
qed

lemma length_carve_nth:
  "sum_list ns \<le> length xs \<Longrightarrow> k < length ns \<Longrightarrow> length (carve ns xs ! k) = ns ! k"
proof (induction ns arbitrary: xs k)
  case Nil
  then show ?case by simp
next
  case (Cons n ns)
  then show ?case by (cases k) auto
qed

lemma elems_toSlice [simp]: "elems (toSlice xs) = xs"
  by (simp add: toSlice_def)

lemma go_slice_ok:
  "0 \<le> lo \<Longrightarrow> 0 \<le> n \<Longrightarrow> lo + n \<le> int (length xs) \<Longrightarrow>
   go_slice xs lo (lo + n) = Inr (take (nat n) (drop (nat lo) xs))"
  by (simp add: go_slice_def)

lemma wrap64_id: "- (2 ^ 63) \<le> x \<Longrightarrow> x < 2 ^ 63 \<Longrightarrow> wrap64 x = x"
  by (simp add: wrap64_def)

lemma percentOf_exact:
  assumes "0 \<le> T" and "0 \<le> p" and "T * p < 2 ^ 53"
  shows "percentOf L T p = T * p div 100"
proof -
  have "0 \<le> T * p" using assms(1,2) by simp
  then show ?thesis using assms(3) by (simp add: percentOf_def Let_def)
qed

lemma percentageLoop_step:
  fixes L :: "'g stdlib"
  assumes "0 \<le> cur" and "cur \<le> int (length unres)" and "int (length unres) < 2 ^ 62"
      and "0 \<le> p" and "0 \<le> T" and "T * p < 2 ^ 53"
      and "0 \<le> countsFor res i" and "countsFor res i \<le> 2 ^ 62"
      and "size0 = (if i = shardCount - 1 then int (length unres) - cur
                    else T * p div 100 - countsFor res i)"
      and "shardSize = (if cur + size0 > int (length unres) then int (length unres) - cur else size0)"
  shows "percentageLoop L unres dist T res shardCount i (p # rest) cur shards =
     (if shardSize > 0
      then (case go_slice dist cur (cur + shardSize) of
              Inl e \<Rightarrow> Inl e
            | Inr s \<Rightarrow> percentageLoop L unres dist T res shardCount (i + 1) rest (cur + shardSize)
                        (shards[nat i := Some s]))
      else percentageLoop L unres dist T res shardCount (i + 1) rest cur shards)"
proof -
  let ?len = "int (length unres)"
  have "\<And>a::int. 0 \<le> a \<Longrightarrow> 0 \<le> a div 100 \<and> a div 100 \<le> a" by presburger
  moreover have "0 \<le> T * p" using assms(4,5) by simp
  ultimately have "0 \<le> T * p div 100 \<and> T * p div 100 \<le> T * p" by blast
  then have q: "0 \<le> T * p div 100" "T * p div 100 < 2 ^ 53"
    using assms(6) by simp_all
  have e1: "wrap64 (?len - cur) = ?len - cur"
    using assms(1,2,3) by (intro wrap64_id) simp_all
  have e2: "(case res of None \<Rightarrow> percentOf L T p
             | Some r \<Rightarrow> wrap64 (percentOf L T p - CountsByShard r i)) = T * p div 100 - countsFor res i"
  proof (cases res)
    case None
    then show ?thesis using assms(4,5,6) by (simp add: percentOf_exact countsFor_def)
  next
    case (Some r)
    have "wrap64 (T * p div 100 - CountsByShard r i) = T * p div 100 - CountsByShard r i"
      using q assms(7,8) Some by (intro wrap64_id) (simp_all add: countsFor_def)
    then show ?thesis using assms(4,5,6) Some by (simp add: percentOf_exact countsFor_def)
  qed
  have s0: "(if i = shardCount - 1 then wrap64 (?len - cur)
             else (case res of None \<Rightarrow> percentOf L T p
                   | Some r \<Rightarrow> wrap64 (percentOf L T p - CountsByShard r i))) = size0"
    by (simp only: e1 e2 assms(9))
  have b0: "- (2 ^ 62) \<le> size0" "size0 < 2 ^ 62"
    using q assms(1,2,3,7,8) by (auto simp: assms(9))
  have e3: "wrap64 (cur + size0) = cur + size0"
    using b0 assms(1,2,3) by (intro wrap64_id) simp_all
  have s1: "(if wrap64 (cur + size0) > ?len then wrap64 (?len - cur) else size0) = shardSize"
    by (simp only: e1 e3 assms(10))
  have b1: "- (2 ^ 62) \<le> shardSize" "shardSize < 2 ^ 62"
    using b0 assms(1,2,3) by (auto simp: assms(10))
  have e4: "wrap64 (cur + shardSize) = cur + shardSize"
    using b1 assms(1,2,3) by (intro wrap64_id) simp_all
  show ?thesis by (simp only: percentageLoop.simps Let_def s0 s1 e4)
qed

lemma percentageLoop_eq:
  fixes L :: "'g stdlib"
  assumes "length dist = length unres"
      and "0 \<le> cur" and "cur \<le> int (length unres)"
      and "0 \<le> i" and "i + int (length pcts) = shardCount"
      and "length shards = nat shardCount"
      and "\<forall>k. nat i \<le> k \<and> k < length shards \<longrightarrow> shards ! k = None"
      and "\<forall>p\<in>set pcts. 0 \<le> p \<and> T * p < 2 ^ 53" and "0 \<le> T"
      and "int (length unres) < 2 ^ 62"
      and "\<forall>j. 0 \<le> countsFor res j \<and> countsFor res j \<le> 2 ^ 62"
  shows "percentageLoop L unres dist T res shardCount i pcts cur shards =
           Inr (take (nat i) shards @
                map toSlice (carve (percentageTargets T (countsFor res) (int (length unres) - cur) i pcts)
                                   (drop (nat cur) dist)))"
  using assms(1-7) assms(8)
proof (induction pcts arbitrary: i cur shards)
  case Nil
  then show ?case by simp
next
  case (Cons p pcts)
  let ?len = "int (length unres)"
  let ?last = "i = shardCount - 1"
  let ?size0 = "if ?last then ?len - cur else T * p div 100 - countsFor res i"
  let ?size = "if cur + ?size0 > ?len then ?len - cur else ?size0"
  have last_iff: "?last \<longleftrightarrow> pcts = []" using Cons.prems(5) by auto
  have ilt: "nat i < length shards" using Cons.prems(4,5,6) by auto
  have pb: "0 \<le> p" "T * p < 2 ^ 53" using Cons.prems(8) by simp_all
  have rest: "\<forall>p\<in>set pcts. 0 \<le> p \<and> T * p < 2 ^ 53" using Cons.prems(8) by simp
  have cb: "0 \<le> countsFor res i" "countsFor res i \<le> 2 ^ 62" using assms(11) by simp_all
  note unfold = percentageLoop_step[OF Cons.prems(2,3) assms(10) pb(1) assms(9) pb(2) cb refl refl,
      where L = L and shardCount = shardCount and dist = dist and rest = pcts and shards = shards]
  define got where "got = (if pcts = [] then ?len - cur
                          else max 0 (min (T * p div 100 - countsFor res i) (?len - cur)))"
  have got0: "0 \<le> got" and gotle: "cur + got \<le> ?len"
    using Cons.prems(2,3) by (auto simp: got_def)
  have size_got: "got = max 0 ?size"
    using Cons.prems(2,3) last_iff by (auto simp: got_def)
  have targets: "percentageTargets T (countsFor res) (?len - cur) i (p # pcts) =
          nat got # percentageTargets T (countsFor res) (?len - (cur + got)) (i + 1) pcts"
    by (cases pcts) (simp_all add: got_def Let_def algebra_simps)
  have piece: "take (nat got) (drop (nat cur) dist) = [] \<longleftrightarrow> got = 0"
    using got0 gotle Cons.prems(1,2) by auto
  have drop2: "nat (cur + got) = nat got + nat cur"
    using got0 Cons.prems(2) by (simp add: nat_add_distrib)
  show ?case
  proof (cases "?size > 0")
    case True
    then have g: "got = ?size" "0 < got" using size_got by auto
    let ?s = "take (nat got) (drop (nat cur) dist)"
    let ?shards' = "shards[nat i := Some ?s]"
    have sl: "go_slice dist cur (cur + ?size) = Inr ?s"
      using go_slice_ok[of cur got dist] Cons.prems(1,2) got0 gotle g(1) by simp
    have step: "percentageLoop L unres dist T res shardCount i (p # pcts) cur shards =
                percentageLoop L unres dist T res shardCount (i + 1) pcts (cur + got) ?shards'"
      unfolding unfold if_P[OF True] sl g(1) by simp
    have IH: "percentageLoop L unres dist T res shardCount (i + 1) pcts (cur + got) ?shards' =
           Inr (take (nat (i + 1)) ?shards' @
                map toSlice (carve (percentageTargets T (countsFor res) (?len - (cur + got)) (i + 1) pcts)
                                   (drop (nat (cur + got)) dist)))"
      using Cons.prems(1-7) got0 gotle ilt rest by (intro Cons.IH) auto
    have tk: "take (nat (i + 1)) ?shards' = take (nat i) shards @ [toSlice ?s]"
      using ilt Cons.prems(4) piece g(2)
      by (simp add: nat_add_distrib take_Suc_conv_app_nth toSlice_def)
    show ?thesis unfolding step IH tk targets by (simp add: drop2)
  next
    case False
    then have g: "got = 0" using size_got by auto
    have step: "percentageLoop L unres dist T res shardCount i (p # pcts) cur shards =
                percentageLoop L unres dist T res shardCount (i + 1) pcts (cur + got) shards"
      unfolding unfold if_not_P[OF False] by (simp add: g)
    have IH: "percentageLoop L unres dist T res shardCount (i + 1) pcts (cur + got) shards =
           Inr (take (nat (i + 1)) shards @
                map toSlice (carve (percentageTargets T (countsFor res) (?len - (cur + got)) (i + 1) pcts)
                                   (drop (nat (cur + got)) dist)))"
      using Cons.prems(1-7) got0 gotle ilt rest by (intro Cons.IH) auto
    have "shards ! nat i = None" using Cons.prems(7) ilt by simp
    then have tk: "take (nat (i + 1)) shards = take (nat i) shards @ [toSlice (take (nat got) (drop (nat cur) dist))]"
      using ilt Cons.prems(4) g
      by (simp add: nat_add_distrib take_Suc_conv_app_nth toSlice_def)
    show ?thesis unfolding step IH tk targets by (simp add: drop2)
  qed
qed

lemma sizeLoop_step:
  assumes "0 \<le> cur" and "cur \<le> int (length unres)" and "int (length unres) < 2 ^ 63"
      and "- (2 ^ 62) \<le> sz" and "sz + int (length unres) < 2 ^ 63"
      and "0 \<le> countsFor res i" and "countsFor res i \<le> 2 ^ 62"
      and "shardSize = (if sz = - 1 then int (length unres) - cur
             else (let s = sz - countsFor res i in
                   if cur + s > int (length unres) then int (length unres) - cur else s))"
  shows "sizeLoop unres dist res i (sz # ss) cur shards =
     (if shardSize > 0 \<and> cur < int (length unres)
      then (case go_slice dist cur (cur + shardSize) of
              Inl e \<Rightarrow> Inl e
            | Inr s \<Rightarrow> sizeLoop unres dist res (i + 1) ss (cur + shardSize) (shards[nat i := Some s]))
      else sizeLoop unres dist res (i + 1) ss cur (shards[nat i := Some []]))"
proof -
  let ?len = "int (length unres)"
  define s where "s = sz - countsFor res i"
  have e1: "wrap64 (?len - cur) = ?len - cur"
    using assms(1,2,3) by (intro wrap64_id) simp_all
  have bs: "- (2 ^ 63) \<le> s" "s + ?len < 2 ^ 63" "s < 2 ^ 63"
    using assms(4,5,6,7) by (simp_all add: s_def)
  have e2: "(case res of None \<Rightarrow> sz | Some r \<Rightarrow> wrap64 (sz - CountsByShard r i)) = s"
  proof (cases res)
    case None
    then show ?thesis by (simp add: s_def countsFor_def)
  next
    case (Some r)
    have "wrap64 s = s" using bs by (intro wrap64_id) simp_all
    then show ?thesis using Some by (simp add: s_def countsFor_def)
  qed
  have e3: "wrap64 (cur + s) = cur + s"
  proof (cases "s < 0")
    case True
    have "- (2 ^ 63) \<le> cur + s" using bs(1) assms(1) by simp
    moreover have "cur + s < 2 ^ 63" using True assms(2,3) by simp
    ultimately show ?thesis by (rule wrap64_id)
  next
    case False
    have "- (2 ^ 63) \<le> cur + s" using False assms(1) by simp
    moreover have "cur + s < 2 ^ 63" using bs(2) assms(2) by simp
    ultimately show ?thesis by (rule wrap64_id)
  qed
  have sh: "shardSize = (if sz = - 1 then ?len - cur
             else if cur + s > ?len then ?len - cur else s)"
    by (simp add: assms(8) Let_def s_def)
  have s1: "(if sz = - 1 then wrap64 (?len - cur)
             else (let s = (case res of None \<Rightarrow> sz | Some r \<Rightarrow> wrap64 (sz - CountsByShard r i)) in
                   if wrap64 (cur + s) > ?len then wrap64 (?len - cur) else s)) = shardSize"
    by (simp only: Let_def e1 e2 e3 sh)
  have e4: "wrap64 (cur + shardSize) = cur + shardSize"
  proof (cases "shardSize = s")
    case True
    then show ?thesis using e3 by simp
  next
    case False
    then have "shardSize = ?len - cur" using sh by (auto split: if_splits)
    then have "cur + shardSize = ?len" by simp
    then show ?thesis using assms(3) by (simp add: wrap64_id)
  qed
  show ?thesis by (simp only: sizeLoop.simps Let_def s1[unfolded Let_def] e4)
qed

lemma sizeLoop_eq:
  assumes "length dist = length unres"
      and "0 \<le> cur" and "cur \<le> int (length unres)"
      and "0 \<le> i" and "nat i + length ss = length shards"
      and "\<forall>s\<in>set ss. - (2 ^ 62) \<le> s \<and> s + int (length unres) < 2 ^ 63"
      and "int (length unres) < 2 ^ 63"
      and "\<forall>j. 0 \<le> countsFor res j \<and> countsFor res j \<le> 2 ^ 62"
  shows "sizeLoop unres dist res i ss cur shards =
           Inr (take (nat i) shards @
                map Some (carve (sizeTargets (countsFor res) (int (length unres) - cur) i ss)
                                (drop (nat cur) dist)))"
  using assms(1-6)
proof (induction ss arbitrary: i cur shards)
  case Nil
  then show ?case by simp
next
  case (Cons sz ss)
  let ?len = "int (length unres)"
  define shardSize where "shardSize =
     (if sz = - 1 then ?len - cur
      else (let s = sz - countsFor res i in if cur + s > ?len then ?len - cur else s))"
  have ilt: "nat i < length shards" using Cons.prems(5) by auto
  have sb: "- (2 ^ 62) \<le> sz" "sz + ?len < 2 ^ 63" using Cons.prems(6) by simp_all
  have rest: "\<forall>s\<in>set ss. - (2 ^ 62) \<le> s \<and> s + ?len < 2 ^ 63" using Cons.prems(6) by simp
  have cb: "0 \<le> countsFor res i" "countsFor res i \<le> 2 ^ 62" using assms(8) by simp_all
  define got where "got = (if sz = - 1 then ?len - cur
                          else max 0 (min (sz - countsFor res i) (?len - cur)))"
  have got0: "0 \<le> got" and gotle: "cur + got \<le> ?len"
    using Cons.prems(2,3) by (auto simp: got_def)
  have size_got: "got = max 0 shardSize"
    using Cons.prems(2,3) by (auto simp: got_def shardSize_def Let_def)
  have cond: "(shardSize > 0 \<and> cur < ?len) \<longleftrightarrow> 0 < got"
    using Cons.prems(2,3) by (auto simp: got_def shardSize_def Let_def)
  have targets: "sizeTargets (countsFor res) (?len - cur) i (sz # ss) =
          nat got # sizeTargets (countsFor res) (?len - (cur + got)) (i + 1) ss"
    by (simp add: got_def Let_def algebra_simps)
  have nn: "nat (cur + got) = nat got + nat cur"
    using got0 Cons.prems(2) by (simp add: nat_add_distrib)
  let ?s = "take (nat got) (drop (nat cur) dist)"
  let ?shards' = "shards[nat i := Some ?s]"
  note unfold = sizeLoop_step[OF Cons.prems(2,3) assms(7) sb cb shardSize_def,
      where dist = dist and ss = ss and shards = shards]
  have step: "sizeLoop unres dist res i (sz # ss) cur shards =
              sizeLoop unres dist res (i + 1) ss (cur + got) ?shards'"
  proof (cases "0 < got")
    case True
    then have g: "shardSize = got" using size_got by auto
    have sl: "go_slice dist cur (cur + got) = Inr ?s"
      using go_slice_ok[of cur got dist] Cons.prems(1,2) got0 gotle by simp
    have c: "shardSize > 0 \<and> cur < ?len" using cond True by blast
    show ?thesis unfolding unfold if_P[OF c] by (simp add: g sl)
  next
    case False
    then have g: "got = 0" using got0 by simp
    have c: "\<not> (shardSize > 0 \<and> cur < ?len)" using cond False by blast
    show ?thesis unfolding unfold if_not_P[OF c] by (simp add: g)
  qed
  have IH: "sizeLoop unres dist res (i + 1) ss (cur + got) ?shards' =
         Inr (take (nat (i + 1)) ?shards' @
              map Some (carve (sizeTargets (countsFor res) (?len - (cur + got)) (i + 1) ss)
                              (drop (nat (cur + got)) dist)))"
    using Cons.prems(1-5) got0 gotle ilt rest by (intro Cons.IH) auto
  have tk: "take (nat (i + 1)) ?shards' = take (nat i) shards @ [Some ?s]"
    using ilt Cons.prems(4) by (simp add: nat_add_distrib take_Suc_conv_app_nth)
  show ?case unfolding step IH tk targets by (simp add: nn)
qed

lemma nat_split_sum: "0 \<le> g \<Longrightarrow> g \<le> r \<Longrightarrow> nat g + nat (r - g) = nat r"
  by simp

lemma sum_percentageTargets_le:
  "0 \<le> rem \<Longrightarrow> sum_list (percentageTargets T rc rem i pcts) \<le> nat rem"
proof (induction T rc rem i pcts rule: percentageTargets.induct)
  case (3 T rc rem i p q ps)
  define got where "got = max 0 (min (T * p div 100 - rc i) rem)"
  have g: "0 \<le> got" "got \<le> rem" using 3(2) by (auto simp: got_def)
  then have "0 \<le> rem - got" by simp
  from 3(1)[OF got_def this]
  have "sum_list (percentageTargets T rc (rem - got) (i + 1) (q # ps)) \<le> nat (rem - got)" .
  moreover have "percentageTargets T rc rem i (p # q # ps) =
      nat got # percentageTargets T rc (rem - got) (i + 1) (q # ps)"
    by (simp add: got_def Let_def)
  ultimately show ?case using nat_split_sum[OF g] by simp
qed simp_all

lemma sum_percentageTargets_eq:
  "0 \<le> rem \<Longrightarrow> pcts \<noteq> [] \<Longrightarrow> sum_list (percentageTargets T rc rem i pcts) = nat rem"
proof (induction T rc rem i pcts rule: percentageTargets.induct)
  case (3 T rc rem i p q ps)
  define got where "got = max 0 (min (T * p div 100 - rc i) rem)"
  have g: "0 \<le> got" "got \<le> rem" using 3(2) by (auto simp: got_def)
  then have "0 \<le> rem - got" by simp
  from 3(1)[OF got_def this]
  have "sum_list (percentageTargets T rc (rem - got) (i + 1) (q # ps)) = nat (rem - got)" by simp
  moreover have "percentageTargets T rc rem i (p # q # ps) =
      nat got # percentageTargets T rc (rem - got) (i + 1) (q # ps)"
    by (simp add: got_def Let_def)
  ultimately show ?case using nat_split_sum[OF g] by simp
qed simp_all

lemma length_percentageTargets [simp]: "length (percentageTargets T rc rem i pcts) = length pcts"
  by (induction T rc rem i pcts rule: percentageTargets.induct) (simp_all add: Let_def)

lemma sizeTargets_Cons:
  "sizeTargets rc rem i (s # ss) =
     nat (if s = - 1 then rem else max 0 (min (s - rc i) rem)) #
     sizeTargets rc (rem - (if s = - 1 then rem else max 0 (min (s - rc i) rem))) (i + 1) ss"
  by (simp add: Let_def)

lemma sum_sizeTargets_le:
  "0 \<le> rem \<Longrightarrow> sum_list (sizeTargets rc rem i ss) \<le> nat rem"
proof (induction ss arbitrary: rem i)
  case Nil
  then show ?case by simp
next
  case (Cons s ss)
  define got where "got = (if s = - 1 then rem else max 0 (min (s - rc i) rem))"
  have g: "0 \<le> got" "got \<le> rem" using Cons.prems by (auto simp: got_def)
  then have "0 \<le> rem - got" by simp
  from Cons.IH[OF this, of "i + 1"]
  have "sum_list (sizeTargets rc (rem - got) (i + 1) ss) \<le> nat (rem - got)" .
  then show ?case
    unfolding sizeTargets_Cons got_def[symmetric] using nat_split_sum[OF g] by simp
qed

lemma sum_sizeTargets_eq:
  "0 \<le> rem \<Longrightarrow> - 1 \<in> set ss \<Longrightarrow> sum_list (sizeTargets rc rem i ss) = nat rem"
proof (induction ss arbitrary: rem i)
  case Nil
  then show ?case by simp
next
  case (Cons s ss)
  show ?case
  proof (cases "s = - 1")
    case True
    have "sum_list (sizeTargets rc 0 (i + 1) ss) \<le> nat 0" by (rule sum_sizeTargets_le) simp
    then show ?thesis unfolding sizeTargets_Cons using True Cons.prems(1) by simp
  next
    case False
    define got where "got = max 0 (min (s - rc i) rem)"
    have g: "0 \<le> got" "got \<le> rem" using Cons.prems by (auto simp: got_def)
    then have "0 \<le> rem - got" by simp
    moreover have "- 1 \<in> set ss" using False Cons.prems(2) by auto
    ultimately have "sum_list (sizeTargets rc (rem - got) (i + 1) ss) = nat (rem - got)"
      by (rule Cons.IH)
    then show ?thesis
      unfolding sizeTargets_Cons using False nat_split_sum[OF g] by (simp add: got_def)
  qed
qed

lemma length_sizeTargets [simp]: "length (sizeTargets rc rem i ss) = length ss"
  by (induction ss arbitrary: rem i) (simp_all add: Let_def)

lemma shardByPercentage_buckets:
  fixes L :: "'g stdlib" and seed :: string
  assumes "unreservedOf ids res \<noteq> []"
      and "\<forall>p\<in>set pcts. 0 \<le> p \<and> int (length ids) * p < 2 ^ 53"
      and "\<not> keyOutOfRange (reservedEntries res) (int (length pcts))"
      and "int (length (unreservedOf ids res)) < 2 ^ 62"
      and "\<forall>j. 0 \<le> countsFor res j \<and> countsFor res j \<le> 2 ^ 62"
  defines "D \<equiv> sortAndShuffleIfSeed L (unreservedOf ids res) seed"
      and "targets \<equiv> percentageTargets (int (length ids)) (countsFor res)
                         (int (length (unreservedOf ids res))) 0 pcts"
  shows "\<exists>out. shardByPercentage L ids pcts seed res = Inr out \<and> length out = length pcts \<and>
           (\<forall>k<length pcts. mset (elems (out ! k)) =
                mset (carve targets D ! k) + mset (reservedAt (reservedEntries res) k))"
proof -
  let ?unres = "unreservedOf ids res"
  let ?shards = "replicate (length pcts) (None :: slice)"
  let ?dist = "map toSlice (carve targets D)"
  have loop: "percentageLoop L ?unres D (int (length ids)) res (int (length pcts)) 0 pcts 0 ?shards
                = Inr ?dist"
    using percentageLoop_eq[of D ?unres 0 0 pcts "int (length pcts)" ?shards "int (length ids)" res L]
      assms(2,4,5) by (simp add: D_def targets_def)
  have run: "shardByPercentage L ids pcts seed res = mergeAndSort res ?dist"
    using assms(1) loop by (simp add: shardByPercentage_def Let_def D_def)
  have len: "length ?dist = length pcts" by (simp add: targets_def)
  then have "\<not> keyOutOfRange (reservedEntries res) (int (length ?dist))"
    using assms(3) by simp
  then obtain out where out: "mergeAndSort res ?dist = Inr out"
    using mergeAndSort_returns_iff by blast
  have lo: "length out = length pcts" using mergeAndSort_length[OF out] len by simp
  have "mset (elems (out ! k)) = mset (carve targets D ! k) + mset (reservedAt (reservedEntries res) k)"
    if "k < length pcts" for k
  proof -
    have "k < length ?dist" using that len by simp
    from mergeAndSort_nth[OF out this] that show ?thesis by (simp add: targets_def)
  qed
  then show ?thesis using run out lo by auto
qed

lemma shardBySize_buckets:
  fixes L :: "'g stdlib" and seed :: string
  assumes "unreservedOf ids res \<noteq> []"
      and "\<not> keyOutOfRange (reservedEntries res) (int (length sizes))"
      and "\<forall>s\<in>set sizes. - (2 ^ 62) \<le> s \<and> s + int (length (unreservedOf ids res)) < 2 ^ 63"
      and "int (length (unreservedOf ids res)) < 2 ^ 63"
      and "\<forall>j. 0 \<le> countsFor res j \<and> countsFor res j \<le> 2 ^ 62"
  defines "D \<equiv> sortAndShuffleIfSeed L (unreservedOf ids res) seed"
      and "targets \<equiv> sizeTargets (countsFor res) (int (length (unreservedOf ids res))) 0 sizes"
  shows "\<exists>out. shardBySize L ids sizes seed res = Inr out \<and> length out = length sizes \<and>
           (\<forall>k<length sizes. mset (elems (out ! k)) =
                mset (carve targets D ! k) + mset (reservedAt (reservedEntries res) k))"
proof -
  let ?unres = "unreservedOf ids res"
  let ?shards = "replicate (length sizes) (None :: slice)"
  let ?dist = "map Some (carve targets D)"
  have loop: "sizeLoop ?unres D res 0 sizes 0 ?shards = Inr ?dist"
    using sizeLoop_eq[of D ?unres 0 0 sizes ?shards res] assms(3,4,5)
    by (simp add: D_def targets_def)
  have run: "shardBySize L ids sizes seed res = mergeAndSort res ?dist"
    using assms(1) loop by (simp add: shardBySize_def Let_def D_def)
  have len: "length ?dist = length sizes" by (simp add: targets_def)
  then have "\<not> keyOutOfRange (reservedEntries res) (int (length ?dist))"
    using assms(2) by simp
  then obtain out where out: "mergeAndSort res ?dist = Inr out"
    using mergeAndSort_returns_iff by blast
  have lo: "length out = length sizes" using mergeAndSort_length[OF out] len by simp
  have "mset (elems (out ! k)) = mset (carve targets D ! k) + mset (reservedAt (reservedEntries res) k)"
    if "k < length sizes" for k
  proof -
    have "k < length ?dist" using that len by simp
    from mergeAndSort_nth[OF out this] that show ?thesis by (simp add: targets_def)
  qed
  then show ?thesis using run out lo by auto
qed

lemma shardByPercentage_lengths:
  fixes L :: "'g stdlib" and seed :: string
  assumes "unreservedOf ids res \<noteq> []"
      and "\<forall>p\<in>set pcts. 0 \<le> p \<and> int (length ids) * p < 2 ^ 53"
      and "\<not> keyOutOfRange (reservedEntries res) (int (length pcts))"
      and "int (length (unreservedOf ids res)) < 2 ^ 62"
      and "\<forall>j. 0 \<le> countsFor res j \<and> countsFor res j \<le> 2 ^ 62"
  shows "\<exists>out. shardByPercentage L ids pcts seed res = Inr out \<and> length out = length pcts \<and>
           (\<forall>k. k < length pcts \<longrightarrow> length (elems (out ! k)) =
                percentageTargets (int (length ids)) (countsFor res)
                   (int (length (unreservedOf ids res))) 0 pcts ! k
                + length (reservedAt (reservedEntries res) k))"
proof -
  let ?D = "sortAndShuffleIfSeed L (unreservedOf ids res) seed"
  let ?t = "percentageTargets (int (length ids)) (countsFor res)
                   (int (length (unreservedOf ids res))) 0 pcts"
  from shardByPercentage_buckets[OF assms, of L seed]
  obtain out where out: "shardByPercentage L ids pcts seed res = Inr out" "length out = length pcts"
    and m: "\<And>k. k < length pcts \<Longrightarrow> mset (elems (out ! k)) =
                mset (carve ?t ?D ! k) + mset (reservedAt (reservedEntries res) k)"
    by blast
  have sum: "sum_list ?t \<le> length ?D"
    using sum_percentageTargets_le[of "int (length (unreservedOf ids res))" "int (length ids)" "countsFor res" 0 pcts]
    by simp
  have "length (elems (out ! k)) = ?t ! k + length (reservedAt (reservedEntries res) k)"
    if "k < length pcts" for k
  proof -
    have "size (mset (elems (out ! k))) =
            size (mset (carve ?t ?D ! k) + mset (reservedAt (reservedEntries res) k))"
      by (simp only: m[OF that])
    then show ?thesis using length_carve_nth[OF sum, of k] that by simp
  qed
  then show ?thesis using out by blast
qed

lemma shardBySize_lengths:
  fixes L :: "'g stdlib" and seed :: string
  assumes "unreservedOf ids res \<noteq> []"
      and "\<not> keyOutOfRange (reservedEntries res) (int (length sizes))"
      and "\<forall>s\<in>set sizes. - (2 ^ 62) \<le> s \<and> s + int (length (unreservedOf ids res)) < 2 ^ 63"
      and "int (length (unreservedOf ids res)) < 2 ^ 63"
      and "\<forall>j. 0 \<le> countsFor res j \<and> countsFor res j \<le> 2 ^ 62"
  shows "\<exists>out. shardBySize L ids sizes seed res = Inr out \<and> length out = length sizes \<and>
           (\<forall>k. k < length sizes \<longrightarrow> length (elems (out ! k)) =
                sizeTargets (countsFor res) (int (length (unreservedOf ids res))) 0 sizes ! k
                + length (reservedAt (reservedEntries res) k))"
proof -
  let ?D = "sortAndShuffleIfSeed L (unreservedOf ids res) seed"
  let ?t = "sizeTargets (countsFor res) (int (length (unreservedOf ids res))) 0 sizes"
  from shardBySize_buckets[OF assms, of L seed]
  obtain out where out: "shardBySize L ids sizes seed res = Inr out" "length out = length sizes"
    and m: "\<And>k. k < length sizes \<Longrightarrow> mset (elems (out ! k)) =
                mset (carve ?t ?D ! k) + mset (reservedAt (reservedEntries res) k)"
    by blast
  have sum: "sum_list ?t \<le> length ?D"
    using sum_sizeTargets_le[of "int (length (unreservedOf ids res))" "countsFor res" 0 sizes]
    by simp
  have "length (elems (out ! k)) = ?t ! k + length (reservedAt (reservedEntries res) k)"
    if "k < length sizes" for k
  proof -
    have "size (mset (elems (out ! k))) =
            size (mset (carve ?t ?D ! k) + mset (reservedAt (reservedEntries res) k))"
      by (simp only: m[OF that])
    then show ?thesis using length_carve_nth[OF sum, of k] that by simp
  qed
  then show ?thesis using out by blast
qed

lemma runShard_plain:
  assumes "ExcludeIDs cfg = []" and "ReservedIDs cfg = []"
  shows "runShard L cfg sourceIDs =
           applyStrategy L cfg sourceIDs
             (Some \<lparr>IDsByShard = [], CountsByShard = (\<lambda>_. 0), UnreservedIDs = sourceIDs\<rparr>)"
  using assms by (simp add: runShard_def applyExclusions_def applyReservations_def Let_def)

lemma three_lengths:
  assumes "length out = 3"
      and "\<forall>k. k < 3 \<longrightarrow> length (elems (out ! k)) = [a, b, c] ! k"
  shows "map (\<lambda>s. length (elems s)) out = [a, b, c]"
proof -
  from assms(1) obtain x y z where out: "out = [x, y, z]"
    by (cases out; cases "tl out"; cases "tl (tl out)") auto
  from assms(2)[rule_format, of 0] assms(2)[rule_format, of 1] assms(2)[rule_format, of 2]
  show ?thesis by (simp add: out)
qed

lemma percentage_1000:
  fixes L :: "'g stdlib"
  assumes "length sourceIDs = 1000"
  shows "\<exists>out. runShard L \<lparr>Strategy = ''percentage'', ShardCount = 0, ShardPercentages = [5, 20, 75],
                  ShardSizes = [], Seed = [], ExcludeIDs = [], ReservedIDs = []\<rparr> sourceIDs = Inr out
           \<and> map (\<lambda>s. length (elems s)) out = [50, 200, 750]"
proof -
  let ?res = "Some \<lparr>IDsByShard = [], CountsByShard = (\<lambda>_. 0), UnreservedIDs = sourceIDs\<rparr>"
  let ?cfg = "\<lparr>Strategy = ''percentage'', ShardCount = 0, ShardPercentages = [5, 20, 75],
                  ShardSizes = [], Seed = [], ExcludeIDs = [], ReservedIDs = []\<rparr>"
  have run: "runShard L ?cfg sourceIDs = shardByPercentage L sourceIDs [5, 20, 75] [] ?res"
    by (simp add: runShard_plain applyStrategy_def)
  have u: "unreservedOf sourceIDs ?res = sourceIDs" by (simp add: unreservedOf_def)
  have ne: "unreservedOf sourceIDs ?res \<noteq> []" using assms u by auto
  have rc: "countsFor ?res = (\<lambda>_. 0)" by (simp add: countsFor_def fun_eq_iff)
  have t: "percentageTargets 1000 (\<lambda>_. 0) 1000 0 [5, 20, 75] = [50, 200, 750]"
    by (simp add: Let_def)
  have b1: "\<forall>p\<in>set [5, 20, 75]. 0 \<le> p \<and> int (length sourceIDs) * p < 2 ^ 53"
    using assms by simp
  have b2: "\<not> keyOutOfRange (reservedEntries ?res) (int (length [5, 20, 75 :: int]))"
    by (simp add: keyOutOfRange_def reservedEntries_def)
  have b3: "int (length (unreservedOf sourceIDs ?res)) < 2 ^ 62" using assms u by simp
  have b4: "\<forall>j. 0 \<le> countsFor ?res j \<and> countsFor ?res j \<le> 2 ^ 62" by (simp add: rc)
  from shardByPercentage_lengths[OF ne b1 b2 b3 b4, of L "[]"]
  obtain out where out: "shardByPercentage L sourceIDs [5, 20, 75] [] ?res = Inr out" "length out = 3"
    and l: "\<forall>k. k < 3 \<longrightarrow> length (elems (out ! k)) = [50, 200, 750] ! k"
    using assms by (auto simp: u rc t)
  from three_lengths[OF out(2) l] run out(1) show ?thesis by simp
qed

lemma size_instances:
  fixes L :: "'g stdlib"
  assumes "sourceIDs \<noteq> []" and "length sourceIDs \<le> 1000"
      and "sizeTargets (\<lambda>_. 0) (int (length sourceIDs)) 0 [100, 500, - 1] = [a, b, c]"
  shows "\<exists>out. runShard L \<lparr>Strategy = ''size'', ShardCount = 0, ShardPercentages = [],
                  ShardSizes = [100, 500, - 1], Seed = [], ExcludeIDs = [], ReservedIDs = []\<rparr> sourceIDs = Inr out
           \<and> map (\<lambda>s. length (elems s)) out = [a, b, c]"
proof -
  let ?res = "Some \<lparr>IDsByShard = [], CountsByShard = (\<lambda>_. 0), UnreservedIDs = sourceIDs\<rparr>"
  let ?cfg = "\<lparr>Strategy = ''size'', ShardCount = 0, ShardPercentages = [],
                  ShardSizes = [100, 500, - 1], Seed = [], ExcludeIDs = [], ReservedIDs = []\<rparr>"
  have run: "runShard L ?cfg sourceIDs = shardBySize L sourceIDs [100, 500, - 1] [] ?res"
    by (simp add: runShard_plain applyStrategy_def)
  have u: "unreservedOf sourceIDs ?res = sourceIDs" by (simp add: unreservedOf_def)
  have ne: "unreservedOf sourceIDs ?res \<noteq> []" using assms(1) u by auto
  have rc: "countsFor ?res = (\<lambda>_. 0)" by (simp add: countsFor_def fun_eq_iff)
  have b2: "\<not> keyOutOfRange (reservedEntries ?res) (int (length [100, 500, - 1 :: int]))"
    by (simp add: keyOutOfRange_def reservedEntries_def)
  have b3: "\<forall>s\<in>set [100, 500, - 1]. - (2 ^ 62) \<le> s \<and> s + int (length (unreservedOf sourceIDs ?res)) < 2 ^ 63"
    using assms(2) u by simp
  have b4: "int (length (unreservedOf sourceIDs ?res)) < 2 ^ 63" using assms(2) u by simp
  have b5: "\<forall>j. 0 \<le> countsFor ?res j \<and> countsFor ?res j \<le> 2 ^ 62" by (simp add: rc)
  from shardBySize_lengths[OF ne b2 b3 b4 b5, of L "[]"]
  obtain out where out: "shardBySize L sourceIDs [100, 500, - 1] [] ?res = Inr out" "length out = 3"
    and l: "\<forall>k. k < 3 \<longrightarrow> length (elems (out ! k)) = [a, b, c] ! k"
    using assms(3) by (auto simp: u rc)
  from three_lengths[OF out(2) l] run out(1) show ?thesis by simp
qed

lemma targets_zero:
  fixes ns :: "nat list"
  assumes "sum_list ns \<le> 0" and "k < length ns"
  shows "ns ! k = 0"
proof -
  have "ns ! k \<le> sum_list ns" using assms(2) by (rule elem_le_sum_list)
  then show ?thesis using assms(1) by linarith
qed

lemma empty_pool_percentage:
  assumes "unreservedOf ids res = []"
  shows "shardByPercentage L ids pcts seed res = Inr (replicate (length pcts) None)"
    and "k < length pcts \<Longrightarrow>
         percentageTargets (int (length ids)) (countsFor res)
            (int (length (unreservedOf ids res))) 0 pcts ! k = 0"
proof -
  show "shardByPercentage L ids pcts seed res = Inr (replicate (length pcts) None)"
    using assms by (simp add: shardByPercentage_def Let_def)
  assume k: "k < length pcts"
  have "sum_list (percentageTargets (int (length ids)) (countsFor res) 0 0 pcts) \<le> nat 0"
    by (rule sum_percentageTargets_le) simp
  then show "percentageTargets (int (length ids)) (countsFor res)
            (int (length (unreservedOf ids res))) 0 pcts ! k = 0"
    using targets_zero[of "percentageTargets (int (length ids)) (countsFor res) 0 0 pcts" k] k assms
    by simp
qed

lemma empty_pool_size:
  assumes "unreservedOf ids res = []"
  shows "shardBySize L ids sizes seed res = Inr (replicate (length sizes) None)"
    and "k < length sizes \<Longrightarrow>
         sizeTargets (countsFor res) (int (length (unreservedOf ids res))) 0 sizes ! k = 0"
proof -
  show "shardBySize L ids sizes seed res = Inr (replicate (length sizes) None)"
    using assms by (simp add: shardBySize_def Let_def)
  assume k: "k < length sizes"
  have "sum_list (sizeTargets (countsFor res) 0 0 sizes) \<le> nat 0"
    by (rule sum_sizeTargets_le) simp
  then show "sizeTargets (countsFor res) (int (length (unreservedOf ids res))) 0 sizes ! k = 0"
    using targets_zero[of "sizeTargets (countsFor res) 0 0 sizes" k] k assms
    by simp
qed

text \<open>
  Claim C6. \<^verbatim>\<open>shardByPercentage\<close> is called with the exclusion-filtered pool \<open>ids\<close> and the
  reservations \<open>r\<close>. Let the percentages be non-negative with sum 100, let \<open>100 * T\<close> be
  below \<open>2^53\<close> for the size \<open>T\<close> of \<open>ids\<close> (so that the \<^verbatim>\<open>float64\<close> quotient is exact), let
  the distributable pool \<^verbatim>\<open>r.UnreservedIDs\<close> be non-empty, and let the reservation keys be
  in range. Then the function returns one bucket per percentage, and bucket \<open>k\<close> holds
  the identifiers reserved for \<open>k\<close> together with as many distributed identifiers as the
  specification's rule gives from \<open>T\<close> and the counts \<^verbatim>\<open>r.CountsByShard\<close>:
  \<open>floor (T * percentage / 100) - CountsByShard k\<close>, cut to what remains of the
  distributable pool (and no fewer than none), and all that remains for the last shard.
  When the distributable pool is empty the function returns at once with every bucket
  empty, and the rule gives 0 for every shard. With 1000 identifiers, percentages 5, 20
  and 75, no seed and no reservations the run returns buckets of 50, 200 and 750
  identifiers.
\<close>

theorem C6_percentage_targets:
  fixes L :: "'g stdlib"
  shows "((\<forall>p\<in>set pcts. 0 \<le> p) \<and> sum_list pcts = 100 \<and> int (length ids) * 100 < 2 ^ 53
          \<and> UnreservedIDs r \<noteq> [] \<and> int (length (UnreservedIDs r)) < 2 ^ 62
          \<and> (\<forall>j. 0 \<le> CountsByShard r j \<and> CountsByShard r j \<le> 2 ^ 62)
          \<and> \<not> keyOutOfRange (IDsByShard r) (int (length pcts)) \<longrightarrow>
          (\<exists>out. shardByPercentage L ids pcts seed (Some r) = Inr out \<and> length out = length pcts \<and>
             (\<forall>k. k < length pcts \<longrightarrow> length (elems (out ! k)) =
                percentageTargets (int (length ids)) (CountsByShard r)
                   (int (length (UnreservedIDs r))) 0 pcts ! k
                + length (reservedAt (IDsByShard r) k))))
       \<and> (UnreservedIDs r = [] \<longrightarrow>
          shardByPercentage L ids pcts seed (Some r) = Inr (replicate (length pcts) None) \<and>
          (\<forall>k. k < length pcts \<longrightarrow>
             percentageTargets (int (length ids)) (CountsByShard r)
                (int (length (UnreservedIDs r))) 0 pcts ! k = 0))
       \<and> (length sourceIDs = 1000 \<longrightarrow>
          (\<exists>out. runShard L \<lparr>Strategy = ''percentage'', ShardCount = 0, ShardPercentages = [5, 20, 75],
                    ShardSizes = [], Seed = [], ExcludeIDs = [], ReservedIDs = []\<rparr> sourceIDs = Inr out
             \<and> map (\<lambda>s. length (elems s)) out = [50, 200, 750]))"
proof -
  have u: "unreservedOf ids (Some r) = UnreservedIDs r" by (simp add: unreservedOf_def)
  have e: "reservedEntries (Some r) = IDsByShard r" by (simp add: reservedEntries_def)
  have c: "countsFor (Some r) = CountsByShard r" by (simp add: countsFor_def fun_eq_iff)
  have A: "\<exists>out. shardByPercentage L ids pcts seed (Some r) = Inr out \<and> length out = length pcts \<and>
             (\<forall>k. k < length pcts \<longrightarrow> length (elems (out ! k)) =
                percentageTargets (int (length ids)) (CountsByShard r)
                   (int (length (UnreservedIDs r))) 0 pcts ! k
                + length (reservedAt (IDsByShard r) k))"
    if h: "(\<forall>p\<in>set pcts. 0 \<le> p) \<and> sum_list pcts = 100 \<and> int (length ids) * 100 < 2 ^ 53
          \<and> UnreservedIDs r \<noteq> [] \<and> int (length (UnreservedIDs r)) < 2 ^ 62
          \<and> (\<forall>j. 0 \<le> CountsByShard r j \<and> CountsByShard r j \<le> 2 ^ 62)
          \<and> \<not> keyOutOfRange (IDsByShard r) (int (length pcts))"
  proof -
    have pb: "\<forall>p\<in>set pcts. 0 \<le> p \<and> int (length ids) * p < 2 ^ 53"
    proof
      fix p assume p: "p \<in> set pcts"
      have nn: "0 \<le> p" using h p by simp
      have "p \<le> sum_list pcts" using h p by (intro member_le_sum_list) simp_all
      then have "p \<le> 100" using h by simp
      then have "int (length ids) * p \<le> int (length ids) * 100" by (intro mult_left_mono) simp_all
      also have "\<dots> < 2 ^ 53" using h by simp
      finally show "0 \<le> p \<and> int (length ids) * p < 2 ^ 53" using nn by simp
    qed
    have ne: "unreservedOf ids (Some r) \<noteq> []" using h u by simp
    have kr: "\<not> keyOutOfRange (reservedEntries (Some r)) (int (length pcts))" using h e by simp
    have lb: "int (length (unreservedOf ids (Some r))) < 2 ^ 62" using h u by simp
    have cb: "\<forall>j. 0 \<le> countsFor (Some r) j \<and> countsFor (Some r) j \<le> 2 ^ 62" using h c by simp
    from shardByPercentage_lengths[OF ne pb kr lb cb, of L seed] show ?thesis
      unfolding u e c .
  qed
  have B: "shardByPercentage L ids pcts seed (Some r) = Inr (replicate (length pcts) None) \<and>
          (\<forall>k. k < length pcts \<longrightarrow>
             percentageTargets (int (length ids)) (CountsByShard r)
                (int (length (UnreservedIDs r))) 0 pcts ! k = 0)"
    if h: "UnreservedIDs r = []"
  proof -
    have em: "unreservedOf ids (Some r) = []" using h u by simp
    show ?thesis
      using empty_pool_percentage(1)[OF em, of L pcts seed]
        empty_pool_percentage(2)[OF em, of _ pcts] unfolding u c by blast
  qed
  show ?thesis using A B percentage_1000[of sourceIDs L] by blast
qed

theorem C6_witness:
  "list_all (\<lambda>p. 0 \<le> p) [50, 50 :: int] \<and> sum_list [50, 50 :: int] = 100
   \<and> int (length [''1'', ''2'', ''3'', ''4'', ''5'', ''6'']) * 100 < 2 ^ 53
   \<and> \<not> keyOutOfRange [(''shard_0'', Some [''3''])] (int (length [50, 50 :: int]))
   \<and> percentageTargets 6 ((\<lambda>_. 0)(0 := 1)) 5 0 [50, 50] = [2, 3]
   \<and> (\<exists>out. shardByPercentage demoLib [''1'', ''2'', ''3'', ''4'', ''5'', ''6''] [50, 50] ''s''
          (Some \<lparr>IDsByShard = [(''shard_0'', Some [''3''])], CountsByShard = (\<lambda>_. 0)(0 := 1),
                 UnreservedIDs = [''1'', ''2'', ''4'', ''5'', ''6'']\<rparr>) = Inr out
        \<and> map (\<lambda>s. length (elems s)) out = [3, 3])
   \<and> length (map fmt_decimal [0..<1000]) = 1000
   \<and> (\<exists>out. runShard demoLib \<lparr>Strategy = ''percentage'', ShardCount = 0, ShardPercentages = [5, 20, 75],
                ShardSizes = [], Seed = [], ExcludeIDs = [], ReservedIDs = []\<rparr>
                (map fmt_decimal [0..<1000]) = Inr out
        \<and> map (\<lambda>s. length (elems s)) out = [50, 200, 750])"
proof -
  let ?r = "\<lparr>IDsByShard = [(''shard_0'', Some [''3''])], CountsByShard = (\<lambda>_. 0)(0 := 1 :: int),
               UnreservedIDs = [''1'', ''2'', ''4'', ''5'', ''6'']\<rparr>"
  let ?ids = "[''1'', ''2'', ''3'', ''4'', ''5'', ''6'']"
  have h1: "\<forall>p\<in>set [50, 50 :: int]. 0 \<le> p" by simp
  have h1': "list_all (\<lambda>p. 0 \<le> p) [50, 50 :: int]" by simp
  have h2: "sum_list [50, 50 :: int] = 100" by simp
  have h3: "int (length ?ids) * 100 < 2 ^ 53" by simp
  have h4: "UnreservedIDs ?r \<noteq> []" by simp
  have h5: "int (length (UnreservedIDs ?r)) < 2 ^ 62" by simp
  have h6: "\<forall>j. 0 \<le> CountsByShard ?r j \<and> CountsByShard ?r j \<le> 2 ^ 62" by simp
  have h7': "\<not> keyOutOfRange [(''shard_0'', Some [''3''])] (int (length [50, 50 :: int]))" by code_simp
  have h7: "\<not> keyOutOfRange (IDsByShard ?r) (int (length [50, 50 :: int]))" using h7' by simp
  have h8: "length (map fmt_decimal [0..<1000]) = 1000" by simp
  note inst = C6_percentage_targets[where pcts = "[50, 50]" and ids = ?ids and r = ?r
      and L = demoLib and seed = "''s''" and sourceIDs = "map fmt_decimal [0..<1000]"]
  from inst[THEN conjunct1, THEN mp,
      OF conjI[OF h1 conjI[OF h2 conjI[OF h3 conjI[OF h4 conjI[OF h5 conjI[OF h6 h7]]]]]]]
  obtain out where
    out: "shardByPercentage demoLib ?ids [50, 50] ''s'' (Some ?r) = Inr out" "length out = length [50, 50 :: int]"
    and l: "\<forall>k. k < length [50, 50 :: int] \<longrightarrow> length (elems (out ! k)) =
                percentageTargets (int (length ?ids)) (CountsByShard ?r)
                   (int (length (UnreservedIDs ?r))) 0 [50, 50] ! k
                + length (reservedAt (IDsByShard ?r) k)"
    by blast
  have t': "percentageTargets 6 ((\<lambda>_. 0)(0 := 1)) 5 0 [50, 50] = [2, 3]"
    by (simp add: Let_def)
  have t: "percentageTargets (int (length ?ids)) (CountsByShard ?r)
              (int (length (UnreservedIDs ?r))) 0 [50, 50] = [2, 3]"
    using t' by simp
  have "length (reservedAt [(''shard_0'', Some [''3''])] 0) = 1"
    and "length (reservedAt [(''shard_0'', Some [''3''])] 1) = 0" by code_simp+
  then have r0: "length (reservedAt (IDsByShard ?r) 0) = 1"
    and r1: "length (reservedAt (IDsByShard ?r) 1) = 0" by simp_all
  obtain x y where xy: "out = [x, y]"
    using out(2) by (cases out; cases "tl out") auto
  from l[rule_format, of 0] l[rule_format, of 1] t r0 r1
  have lens: "map (\<lambda>s. length (elems s)) out = [3, 3]" by (simp add: xy)
  have A: "\<exists>out. shardByPercentage demoLib ?ids [50, 50] ''s'' (Some ?r) = Inr out
        \<and> map (\<lambda>s. length (elems s)) out = [3, 3]"
    by (rule exI[of _ out]) (rule conjI[OF out(1) lens])
  note B = inst[THEN conjunct2, THEN conjunct2, THEN mp, OF h8]
  show ?thesis
    by (rule conjI[OF h1' conjI[OF h2 conjI[OF h3 conjI[OF h7' conjI[OF t' conjI[OF A conjI[OF h8 B]]]]]]])
qed

text \<open>
  Claim C7. The sizes are not bounded by the validator (every size of at least 1 is
  accepted), and the comparison \<^verbatim>\<open>currentIndex+shardSize > len(unreservedIDs)\<close> that should
  cut a size to what remains is made in 64-bit arithmetic. With sizes 1 and
  \<open>2^63 - 1\<close> on a pool of three identifiers the sum \<open>1 + (2^63 - 1)\<close> wraps to a negative
  number, the size is not cut, and the slice expression
  \<^verbatim>\<open>distributionIDs[currentIndex : currentIndex+shardSize]\<close> fails: the run ends in a
  run-time panic instead of filling the second shard with the two identifiers that are
  left.
\<close>

theorem C7_size_overflow_panics:
  "validateShardingParameters
        \<lparr>Strategy = ''size'', ShardCount = 0, ShardPercentages = [],
         ShardSizes = [1, 9223372036854775807], Seed = [], ExcludeIDs = [], ReservedIDs = []\<rparr>
   \<and> runShard demoLib
        \<lparr>Strategy = ''size'', ShardCount = 0, ShardPercentages = [],
         ShardSizes = [1, 9223372036854775807], Seed = [], ExcludeIDs = [], ReservedIDs = []\<rparr>
        [''1'', ''2'', ''3''] = Inl Panic
   \<and> sizeTargets (\<lambda>_. 0) 3 0 [1, 9223372036854775807] = [1, 2]"
proof -
  have a: "validateShardingParameters
        \<lparr>Strategy = ''size'', ShardCount = 0, ShardPercentages = [],
         ShardSizes = [1, 9223372036854775807], Seed = [], ExcludeIDs = [], ReservedIDs = []\<rparr>"
    by code_simp
  have b: "runShard demoLib
        \<lparr>Strategy = ''size'', ShardCount = 0, ShardPercentages = [],
         ShardSizes = [1, 9223372036854775807], Seed = [], ExcludeIDs = [], ReservedIDs = []\<rparr>
        [''1'', ''2'', ''3''] = Inl Panic"
    by code_simp
  have c: "sizeTargets (\<lambda>_. 0) 3 0 [1, 9223372036854775807] = [1, 2]"
    by (simp add: Let_def)
  show ?thesis by (rule conjI[OF a conjI[OF b c]])
qed

text \<open>
  Where the sums stay in the 64-bit range the strategy follows the rule of the
  specification: with sizes 100, 500 and \<open>-1\<close>, no seed and no reservations, 700
  identifiers give buckets of 100, 500 and 100, and 50 identifiers give buckets of 50, 0
  and 0. The general statement for sizes in range is lemma \<open>shardBySize_lengths\<close>.
\<close>

lemma size_700_and_50:
  fixes L :: "'g stdlib"
  shows "(length pool700 = 700 \<longrightarrow>
          (\<exists>out. runShard L \<lparr>Strategy = ''size'', ShardCount = 0, ShardPercentages = [],
                    ShardSizes = [100, 500, - 1], Seed = [], ExcludeIDs = [], ReservedIDs = []\<rparr> pool700 = Inr out
             \<and> map (\<lambda>s. length (elems s)) out = [100, 500, 100]))
       \<and> (length pool50 = 50 \<longrightarrow>
          (\<exists>out. runShard L \<lparr>Strategy = ''size'', ShardCount = 0, ShardPercentages = [],
                    ShardSizes = [100, 500, - 1], Seed = [], ExcludeIDs = [], ReservedIDs = []\<rparr> pool50 = Inr out
             \<and> map (\<lambda>s. length (elems s)) out = [50, 0, 0]))"
proof (intro conjI impI)
  assume a: "length pool700 = 700"
  then have "pool700 \<noteq> []" and "length pool700 \<le> 1000" by auto
  moreover have "sizeTargets (\<lambda>_. 0) (int (length pool700)) 0 [100, 500, - 1] = [100, 500, 100]"
    by (simp add: a Let_def)
  ultimately show "\<exists>out. runShard L \<lparr>Strategy = ''size'', ShardCount = 0, ShardPercentages = [],
                    ShardSizes = [100, 500, - 1], Seed = [], ExcludeIDs = [], ReservedIDs = []\<rparr> pool700 = Inr out
             \<and> map (\<lambda>s. length (elems s)) out = [100, 500, 100]"
    by (rule size_instances)
next
  assume a: "length pool50 = 50"
  then have "pool50 \<noteq> []" and "length pool50 \<le> 1000" by auto
  moreover have "sizeTargets (\<lambda>_. 0) (int (length pool50)) 0 [100, 500, - 1] = [50, 0, 0]"
    by (simp add: a Let_def)
  ultimately show "\<exists>out. runShard L \<lparr>Strategy = ''size'', ShardCount = 0, ShardPercentages = [],
                    ShardSizes = [100, 500, - 1], Seed = [], ExcludeIDs = [], ReservedIDs = []\<rparr> pool50 = Inr out
             \<and> map (\<lambda>s. length (elems s)) out = [50, 0, 0]"
    by (rule size_instances)
qed

section \<open>The identifiers of all buckets together\<close>

lemma allOf_simps [simp]:
  "allOf [] = []" "allOf (s # shards) = elems s @ allOf shards"
  "allOf (xs @ ys) = allOf xs @ allOf ys"
  by (simp_all add: allOf_def)

lemma mset_allOf_update:
  assumes "i < length shards"
  shows "mset (allOf (shards[i := s])) + mset (elems (shards ! i)) = mset (allOf shards) + mset (elems s)"
proof -
  have "shards = take i shards @ shards ! i # drop (Suc i) shards"
    using assms by (simp add: id_take_nth_drop)
  moreover have "shards[i := s] = take i shards @ s # drop (Suc i) shards"
    using assms by (simp add: upd_conv_take_nth_drop)
  ultimately have "mset (allOf (shards[i := s])) + mset (elems (shards ! i)) =
      mset (allOf (take i shards @ s # drop (Suc i) shards)) + mset (elems (shards ! i))"
    and "mset (allOf shards) = mset (allOf (take i shards @ shards ! i # drop (Suc i) shards))"
    by simp_all
  then show ?thesis by simp
qed

lemma mset_allOf_append_at:
  assumes "i < length shards"
  shows "mset (allOf (shards[i := go_append (shards ! i) xs])) = mset (allOf shards) + mset xs"
  using mset_allOf_update[OF assms, of "go_append (shards ! i) xs"] by simp

lemma mset_allOf_prepend_at:
  assumes "i < length shards"
  shows "mset (allOf (shards[i := go_append r (elems (shards ! i))])) = mset (allOf shards) + mset (elems r)"
  using mset_allOf_update[OF assms, of "go_append r (elems (shards ! i))"] by simp

lemma mset_allOf_mergeReserved:
  "mergeReserved rm shards = Inr out \<Longrightarrow> mset (allOf out) = mset (allOf shards) + mset (allReserved rm)"
proof (induction rm arbitrary: shards)
  case Nil
  then show ?case by simp
next
  case (Cons e rm)
  obtain n l where e: "e = (n, l)" by (cases e)
  let ?i = "nat (shardIndexOf n)"
  let ?shards' = "shards[?i := go_append l (elems (shards ! ?i))]"
  from Cons.prems e have inr: "0 \<le> shardIndexOf n" "shardIndexOf n < int (length shards)"
    and step: "mergeReserved rm ?shards' = Inr out"
    by (simp_all add: Let_def split: if_splits)
  have "?i < length shards" using inr by simp
  from mset_allOf_prepend_at[OF this, of l] Cons.IH[OF step] e show ?case by simp
qed

lemma mset_allOf_sorted [simp]:
  "mset (allOf (map (map_option sortIDsNumerically) shards)) = mset (allOf shards)"
  by (induction shards) simp_all

lemma mset_allOf_mergeAndSort:
  assumes "mergeAndSort reservations shards = Inr out"
  shows "mset (allOf out) = mset (allOf shards) + mset (allReserved (reservedEntries reservations))"
proof (cases reservations)
  case None
  with assms show ?thesis by (auto simp: mergeAndSort_def)
next
  case (Some r)
  with assms obtain merged where m: "mergeReserved (IDsByShard r) shards = Inr merged"
    and out: "out = map (map_option sortIDsNumerically) merged"
    by (auto simp: mergeAndSort_def split: sum.splits)
  show ?thesis using mset_allOf_mergeReserved[OF m] out Some by simp
qed

lemma allOf_replicate [simp]: "allOf (replicate n None) = []" "allOf (replicate n (Some [])) = []"
  by (induction n) simp_all

lemma length_roundRobinLoop [simp]: "length (roundRobinLoop n i ids shards) = length shards"
  by (induction ids arbitrary: i shards) simp_all

lemma mset_allOf_roundRobinLoop:
  "0 < n \<Longrightarrow> n \<le> length shards \<Longrightarrow>
   mset (allOf (roundRobinLoop n i ids shards)) = mset (allOf shards) + mset ids"
proof (induction ids arbitrary: i shards)
  case Nil
  then show ?case by simp
next
  case (Cons a ids)
  have "i mod n < length shards" using Cons.prems by (meson mod_less_divisor less_le_trans)
  from mset_allOf_append_at[OF this, of "[a]"] Cons.IH[of "shards[i mod n := go_append (shards ! (i mod n)) [a]]" "Suc i"] Cons.prems
  show ?case by simp
qed

lemma mset_allOf_rendezvousLoop:
  "0 < n \<Longrightarrow> n \<le> length shards \<Longrightarrow>
   mset (allOf (rendezvousLoop L seed n ids shards)) = mset (allOf shards) + mset ids"
proof (induction ids arbitrary: shards)
  case Nil
  then show ?case by simp
next
  case (Cons a ids)
  let ?s = "selectShard L a seed n"
  have "?s < length shards" using Cons.prems selectShard_props(1)[of n L a seed] by simp
  from mset_allOf_append_at[OF this, of "[a]"] Cons.IH[of "shards[?s := go_append (shards ! ?s) [a]]"] Cons.prems
  show ?case by (simp add: Let_def)
qed

lemma allOf_toSlice_carve [simp]: "allOf (map toSlice (carve ns xs)) = take (sum_list ns) xs"
  using concat_carve[of ns xs] by (simp add: allOf_def comp_def)

lemma allOf_Some_carve [simp]: "allOf (map Some (carve ns xs)) = take (sum_list ns) xs"
  using concat_carve[of ns xs] by (simp add: allOf_def comp_def)

lemma mset_take_subset: "mset (take n xs) \<subseteq># mset xs"
proof -
  have "mset xs = mset (take n xs) + mset (drop n xs)"
    by (metis append_take_drop_id mset_append)
  then show ?thesis by simp
qed

lemma distinct_of_subset:
  assumes "mset xs \<subseteq># mset ys" and "distinct ys"
  shows "distinct xs"
  unfolding distinct_count_atmost_1
proof (intro allI)
  fix a
  have "count (mset xs) a \<le> count (mset ys) a" using assms(1) by (rule mset_subset_eq_count)
  also have "\<dots> \<le> 1" using assms(2) by (simp add: distinct_count_atmost_1)
  finally have le: "count (mset xs) a \<le> 1" .
  show "count (mset xs) a = (if a \<in> set xs then 1 else 0)"
  proof (cases "a \<in> set xs")
    case True
    then have "0 < count (mset xs) a" by (simp add: count_greater_zero_iff)
    with le have "count (mset xs) a = 1" by linarith
    then show ?thesis using True by simp
  next
    case False
    then show ?thesis by (simp add: count_eq_zero_iff)
  qed
qed

lemma shardByRoundRobin_total:
  assumes "\<not> keyOutOfRange (reservedEntries res) (max 1 shardCount)"
  shows "\<exists>out. shardByRoundRobin L ids shardCount seed res = Inr out \<and>
           mset (allOf out) = mset (unreservedOf ids res) + mset (allReserved (reservedEntries res))"
proof -
  let ?n = "nat (max 1 shardCount)"
  let ?loop = "roundRobinLoop ?n 0 (sortAndShuffleIfSeed L (unreservedOf ids res) seed) (replicate ?n None)"
  have sc: "(if shardCount \<le> 0 then 1 else shardCount) = max 1 shardCount" by auto
  have run: "shardByRoundRobin L ids shardCount seed res = mergeAndSort res ?loop"
    unfolding shardByRoundRobin_def Let_def sc ..
  have "int (length ?loop) = max 1 shardCount" by simp
  then have "\<not> keyOutOfRange (reservedEntries res) (int (length ?loop))" using assms by simp
  then obtain out where out: "mergeAndSort res ?loop = Inr out"
    using mergeAndSort_returns_iff by blast
  have "mset (allOf ?loop) = mset (unreservedOf ids res)"
    using mset_allOf_roundRobinLoop[of ?n "replicate ?n None" 0] by simp
  then show ?thesis using mset_allOf_mergeAndSort[OF out] run out by simp
qed

lemma shardByRendezvous_total:
  assumes "\<not> keyOutOfRange (reservedEntries res) (max 1 shardCount)"
  shows "\<exists>out. shardByRendezvous L ids shardCount seed res = Inr out \<and>
           mset (allOf out) = mset (unreservedOf ids res) + mset (allReserved (reservedEntries res))"
proof -
  let ?n = "nat (max 1 shardCount)"
  let ?loop = "rendezvousLoop L seed ?n (unreservedOf ids res) (replicate ?n (Some []))"
  have sc: "(if shardCount \<le> 0 then 1 else shardCount) = max 1 shardCount" by auto
  have run: "shardByRendezvous L ids shardCount seed res = mergeAndSort res ?loop"
    unfolding shardByRendezvous_def Let_def sc ..
  have "int (length ?loop) = max 1 shardCount" by simp
  then have "\<not> keyOutOfRange (reservedEntries res) (int (length ?loop))" using assms by simp
  then obtain out where out: "mergeAndSort res ?loop = Inr out"
    using mergeAndSort_returns_iff by blast
  have "mset (allOf ?loop) = mset (unreservedOf ids res)"
    using mset_allOf_rendezvousLoop[of ?n "replicate ?n (Some [])" L seed] by simp
  then show ?thesis using mset_allOf_mergeAndSort[OF out] run out by simp
qed

lemma shardByPercentage_total:
  fixes L :: "'g stdlib"
  assumes "\<forall>p\<in>set pcts. 0 \<le> p \<and> int (length ids) * p < 2 ^ 53"
      and "\<not> keyOutOfRange (reservedEntries res) (int (length pcts))"
      and "int (length (unreservedOf ids res)) < 2 ^ 62"
      and "\<forall>j. 0 \<le> countsFor res j \<and> countsFor res j \<le> 2 ^ 62"
  shows "\<exists>out. shardByPercentage L ids pcts seed res = Inr out \<and>
           mset (allOf out) \<subseteq># mset (unreservedOf ids res) + mset (allReserved (reservedEntries res)) \<and>
           (pcts \<noteq> [] \<and> (unreservedOf ids res \<noteq> [] \<or> allReserved (reservedEntries res) = []) \<longrightarrow>
            mset (allOf out) = mset (unreservedOf ids res) + mset (allReserved (reservedEntries res)))"
proof (cases "unreservedOf ids res = []")
  case True
  then have "shardByPercentage L ids pcts seed res = Inr (replicate (length pcts) None)"
    by (rule empty_pool_percentage(1))
  then show ?thesis using True by simp
next
  case False
  let ?unres = "unreservedOf ids res"
  let ?D = "sortAndShuffleIfSeed L ?unres seed"
  let ?t = "percentageTargets (int (length ids)) (countsFor res) (int (length ?unres)) 0 pcts"
  let ?dist = "map toSlice (carve ?t ?D)"
  have loop: "percentageLoop L ?unres ?D (int (length ids)) res (int (length pcts)) 0 pcts 0
                (replicate (length pcts) None) = Inr ?dist"
    using percentageLoop_eq[of ?D ?unres 0 0 pcts "int (length pcts)" "replicate (length pcts) None"
        "int (length ids)" res L] assms(1,3,4) by simp
  have run: "shardByPercentage L ids pcts seed res = mergeAndSort res ?dist"
    using False loop by (simp add: shardByPercentage_def Let_def)
  have "\<not> keyOutOfRange (reservedEntries res) (int (length ?dist))" using assms(2) by simp
  then obtain out where out: "mergeAndSort res ?dist = Inr out"
    using mergeAndSort_returns_iff by blast
  have tot: "mset (allOf out) = mset (take (sum_list ?t) ?D) + mset (allReserved (reservedEntries res))"
    using mset_allOf_mergeAndSort[OF out] by simp
  have sub: "mset (take (sum_list ?t) ?D) \<subseteq># mset ?unres"
    using mset_take_subset[of "sum_list ?t" ?D] by simp
  have full: "mset (take (sum_list ?t) ?D) = mset ?unres" if "pcts \<noteq> []"
    using sum_percentageTargets_eq[of "int (length ?unres)" pcts "int (length ids)" "countsFor res" 0] that
    by simp
  show ?thesis using run out tot sub full by auto
qed

lemma shardBySize_total:
  fixes L :: "'g stdlib"
  assumes "\<not> keyOutOfRange (reservedEntries res) (int (length sizes))"
      and "\<forall>s\<in>set sizes. - (2 ^ 62) \<le> s \<and> s + int (length (unreservedOf ids res)) < 2 ^ 63"
      and "int (length (unreservedOf ids res)) < 2 ^ 63"
      and "\<forall>j. 0 \<le> countsFor res j \<and> countsFor res j \<le> 2 ^ 62"
  shows "\<exists>out. shardBySize L ids sizes seed res = Inr out \<and>
           mset (allOf out) \<subseteq># mset (unreservedOf ids res) + mset (allReserved (reservedEntries res)) \<and>
           (unreservedOf ids res \<noteq> [] \<or> allReserved (reservedEntries res) = [] \<longrightarrow>
            (mset (allOf out) = mset (unreservedOf ids res) + mset (allReserved (reservedEntries res))
             \<longleftrightarrow> sum_list (sizeTargets (countsFor res) (int (length (unreservedOf ids res))) 0 sizes)
                   = length (unreservedOf ids res)))"
proof (cases "unreservedOf ids res = []")
  case True
  then have "shardBySize L ids sizes seed res = Inr (replicate (length sizes) None)"
    by (rule empty_pool_size(1))
  moreover have "sum_list (sizeTargets (countsFor res) 0 0 sizes) \<le> nat 0"
    by (rule sum_sizeTargets_le) simp
  ultimately show ?thesis using True by simp
next
  case False
  let ?unres = "unreservedOf ids res"
  let ?D = "sortAndShuffleIfSeed L ?unres seed"
  let ?t = "sizeTargets (countsFor res) (int (length ?unres)) 0 sizes"
  let ?dist = "map Some (carve ?t ?D)"
  have loop: "sizeLoop ?unres ?D res 0 sizes 0 (replicate (length sizes) None) = Inr ?dist"
    using sizeLoop_eq[of ?D ?unres 0 0 sizes "replicate (length sizes) None" res] assms(2,3,4) by simp
  have run: "shardBySize L ids sizes seed res = mergeAndSort res ?dist"
    using False loop by (simp add: shardBySize_def Let_def)
  have "\<not> keyOutOfRange (reservedEntries res) (int (length ?dist))" using assms(1) by simp
  then obtain out where out: "mergeAndSort res ?dist = Inr out"
    using mergeAndSort_returns_iff by blast
  have tot: "mset (allOf out) = mset (take (sum_list ?t) ?D) + mset (allReserved (reservedEntries res))"
    using mset_allOf_mergeAndSort[OF out] by simp
  have sub: "mset (take (sum_list ?t) ?D) \<subseteq># mset ?unres"
    using mset_take_subset[of "sum_list ?t" ?D] by simp
  have le: "sum_list ?t \<le> length ?unres"
    using sum_sizeTargets_le[of "int (length ?unres)" "countsFor res" 0 sizes] by simp
  have lD: "length ?D = length ?unres" by simp
  have mD: "mset ?D = mset ?unres" by simp
  have iff: "mset (take (sum_list ?t) ?D) = mset ?unres \<longleftrightarrow> sum_list ?t = length ?unres"
  proof
    assume "mset (take (sum_list ?t) ?D) = mset ?unres"
    then have "size (mset (take (sum_list ?t) ?D)) = size (mset ?unres)" by (simp only:)
    then show "sum_list ?t = length ?unres" using le lD by simp
  next
    assume "sum_list ?t = length ?unres"
    then have "take (sum_list ?t) ?D = ?D" using lD by simp
    then show "mset (take (sum_list ?t) ?D) = mset ?unres" using mD by (simp only:)
  qed
  have "mset (allOf out) = mset ?unres + mset (allReserved (reservedEntries res))
          \<longleftrightarrow> sum_list ?t = length ?unres"
    unfolding tot using iff by simp
  then show ?thesis using run out tot sub by auto
qed

section \<open>The pipeline of \<^verbatim>\<open>runShard\<close>\<close>

lemma reserveEntries_parse:
  "reserveEntries n rm info seen = Inr x \<Longrightarrow> \<forall>e\<in>set rm. fmt_Sscanf_shard (fst e) \<noteq> None"
proof (induction rm arbitrary: info seen)
  case Nil
  then show ?case by simp
next
  case (Cons e rm)
  obtain k l where e: "e = (k, l)" by (cases e)
  from Cons.prems e obtain idx where idx: "fmt_Sscanf_shard k = Some idx"
    by (cases "fmt_Sscanf_shard k") auto
  from Cons.prems e idx obtain info1 seen1 where "reserveEntries n rm info1 seen1 = Inr x"
    by (auto split: if_splits sum.splits)
  from Cons.IH[OF this] e idx show ?case by simp
qed

lemma applyReservations_Inr:
  assumes "applyReservations ids rm n = Inr r"
  shows "\<not> keyOutOfRange rm n" and "distinct (allReserved rm)"
    and "IDsByShard r = rm" and "CountsByShard r = countsOf rm"
    and "UnreservedIDs r = filter (\<lambda>i. i \<notin> set (allReserved rm)) ids"
proof -
  have parse: "\<forall>e\<in>set rm. fmt_Sscanf_shard (fst e) \<noteq> None"
  proof (cases "rm = []")
    case True
    then show ?thesis by simp
  next
    case False
    with assms obtain x where
      "reserveEntries n rm \<lparr>IDsByShard = [], CountsByShard = (\<lambda>_. 0), UnreservedIDs = ids\<rparr> [] = Inr x"
      by (auto simp: applyReservations_def Let_def split: sum.splits)
    then show ?thesis by (rule reserveEntries_parse)
  qed
  from assms applyReservations_Inr_iff[OF parse, of ids n r]
  have r: "\<not> keyOutOfRange rm n" "distinct (allReserved rm)"
    "r = \<lparr>IDsByShard = rm, CountsByShard = countsOf rm,
           UnreservedIDs = filter (\<lambda>i. i \<notin> set (allReserved rm)) ids\<rparr>"
    by simp_all
  show "\<not> keyOutOfRange rm n" "distinct (allReserved rm)" by (rule r)+
  show "IDsByShard r = rm" "CountsByShard r = countsOf rm"
    "UnreservedIDs r = filter (\<lambda>i. i \<notin> set (allReserved rm)) ids"
    by (simp_all add: r(3))
qed

lemma applyExclusions_filter:
  "applyExclusions ids ex = filter (\<lambda>i. i \<notin> set ex) ids"
  by (simp add: applyExclusions_def)

lemma mset_applyExclusions:
  "mset (applyExclusions ids ex) + mset (filter (\<lambda>i. i \<in> set ex) ids) = mset ids"
  unfolding applyExclusions_filter
  by (induction ids) simp_all

lemma mset_split_reserved:
  assumes "distinct ids" and "distinct rs" and "set rs \<subseteq> set ids"
  shows "mset (filter (\<lambda>i. i \<notin> set rs) ids) + mset rs = mset ids"
proof -
  have s: "set (filter (\<lambda>i. i \<in> set rs) ids) = set rs" using assms(3) by auto
  have d: "distinct (filter (\<lambda>i. i \<in> set rs) ids)" using assms(1) by simp
  have "mset (filter (\<lambda>i. i \<in> set rs) ids) = mset rs"
    using set_eq_iff_mset_eq_distinct[OF d assms(2)] s by blast
  moreover have "mset (filter (\<lambda>i. i \<notin> set rs) ids) + mset (filter (\<lambda>i. i \<in> set rs) ids) = mset ids"
    by (induction ids) simp_all
  ultimately show ?thesis by (simp only:)
qed

lemma validated_cases:
  assumes "validateShardingParameters cfg"
  obtains (rr) "Strategy cfg = ''round-robin''" "1 \<le> ShardCount cfg" "resolveShardCount cfg = ShardCount cfg"
    | (rdv) "Strategy cfg = ''rendezvous''" "1 \<le> ShardCount cfg" "resolveShardCount cfg = ShardCount cfg"
    | (pct) "Strategy cfg = ''percentage''" "ShardPercentages cfg \<noteq> []"
            "\<forall>p\<in>set (ShardPercentages cfg). 0 \<le> p"
            "resolveShardCount cfg = int (length (ShardPercentages cfg))"
    | (size) "Strategy cfg = ''size''" "ShardSizes cfg \<noteq> []"
            "resolveShardCount cfg = int (length (ShardSizes cfg))"
            "\<forall>s\<in>set (ShardSizes cfg). - 1 \<le> s"
proof -
  from assms have s: "Strategy cfg = ''round-robin'' \<or> Strategy cfg = ''percentage'' \<or>
      Strategy cfg = ''size'' \<or> Strategy cfg = ''rendezvous''"
    by (simp add: validateShardingParameters_def Let_def)
  then consider "Strategy cfg = ''round-robin''" | "Strategy cfg = ''rendezvous''"
    | "Strategy cfg = ''percentage''" | "Strategy cfg = ''size''" by blast
  then show thesis
  proof cases
    case 1
    with assms have "1 \<le> ShardCount cfg" "resolveShardCount cfg = ShardCount cfg"
      by (auto simp: validateShardingParameters_def Let_def resolveShardCount_def split: if_splits)
    with 1 show ?thesis by (rule rr)
  next
    case 2
    with assms have "1 \<le> ShardCount cfg" "resolveShardCount cfg = ShardCount cfg"
      by (auto simp: validateShardingParameters_def Let_def resolveShardCount_def split: if_splits)
    with 2 show ?thesis by (rule rdv)
  next
    case 3
    with assms have "ShardPercentages cfg \<noteq> []" "\<forall>p\<in>set (ShardPercentages cfg). 0 \<le> p"
      "resolveShardCount cfg = int (length (ShardPercentages cfg))"
      by (auto simp: validateShardingParameters_def Let_def resolveShardCount_def list_all_iff split: if_splits)
    with 3 show ?thesis by (rule pct)
  next
    case 4
    with assms have a: "ShardSizes cfg \<noteq> []" "resolveShardCount cfg = int (length (ShardSizes cfg))"
      and b: "\<forall>s\<in>set (ShardSizes cfg). s = - 1 \<or> 1 \<le> s"
      by (auto simp: validateShardingParameters_def Let_def resolveShardCount_def list_all_iff split: if_splits)
    from b have "\<forall>s\<in>set (ShardSizes cfg). - 1 \<le> s" by auto
    with 4 a show ?thesis by (rule size)
  qed
qed

lemma applyStrategy_total:
  fixes L :: "'g stdlib"
  assumes "validateShardingParameters cfg"
      and "\<not> keyOutOfRange (reservedEntries res) (resolveShardCount cfg)"
      and "\<forall>p\<in>set (ShardPercentages cfg). int (length ids) * p < 2 ^ 53"
      and "\<forall>s\<in>set (ShardSizes cfg). s + int (length (unreservedOf ids res)) < 2 ^ 63"
      and "int (length (unreservedOf ids res)) < 2 ^ 62"
      and "\<forall>j. 0 \<le> countsFor res j \<and> countsFor res j \<le> 2 ^ 62"
  shows "\<exists>out. applyStrategy L cfg ids res = Inr out \<and>
           mset (allOf out) \<subseteq># mset (unreservedOf ids res) + mset (allReserved (reservedEntries res)) \<and>
           ((Strategy cfg = ''size'' \<or> Strategy cfg = ''percentage'' \<longrightarrow>
               unreservedOf ids res \<noteq> [] \<or> allReserved (reservedEntries res) = []) \<longrightarrow>
            (mset (allOf out) = mset (unreservedOf ids res) + mset (allReserved (reservedEntries res))
             \<longleftrightarrow> (Strategy cfg = ''size'' \<longrightarrow>
                   sum_list (sizeTargets (countsFor res) (int (length (unreservedOf ids res))) 0
                              (ShardSizes cfg)) = length (unreservedOf ids res))))"
  using assms(1)
proof (cases rule: validated_cases)
  case rr
  have "\<not> keyOutOfRange (reservedEntries res) (max 1 (ShardCount cfg))"
    using assms(2) rr by (simp add: max_def)
  from shardByRoundRobin_total[OF this, of L ids "Seed cfg"]
  show ?thesis using rr by (auto simp: applyStrategy_def)
next
  case rdv
  have "\<not> keyOutOfRange (reservedEntries res) (max 1 (ShardCount cfg))"
    using assms(2) rdv by (simp add: max_def)
  from shardByRendezvous_total[OF this, of L ids "Seed cfg"]
  show ?thesis using rdv by (auto simp: applyStrategy_def)
next
  case pct
  have kr: "\<not> keyOutOfRange (reservedEntries res) (int (length (ShardPercentages cfg)))"
    using assms(2) pct by simp
  have pb: "\<forall>p\<in>set (ShardPercentages cfg). 0 \<le> p \<and> int (length ids) * p < 2 ^ 53"
    using pct(3) assms(3) by simp
  from shardByPercentage_total[OF pb kr assms(5,6), of L "Seed cfg"]
  show ?thesis using pct by (auto simp: applyStrategy_def)
next
  case size
  have kr: "\<not> keyOutOfRange (reservedEntries res) (int (length (ShardSizes cfg)))"
    using assms(2) size by simp
  have sb: "\<forall>s\<in>set (ShardSizes cfg). - (2 ^ 62) \<le> s \<and> s + int (length (unreservedOf ids res)) < 2 ^ 63"
  proof
    fix s assume s: "s \<in> set (ShardSizes cfg)"
    have "- (2 ^ 62) \<le> (- 1 :: int)" by simp
    moreover have "- 1 \<le> s" using size(4) s by simp
    ultimately have "- (2 ^ 62) \<le> s" by (rule order_trans)
    then show "- (2 ^ 62) \<le> s \<and> s + int (length (unreservedOf ids res)) < 2 ^ 63"
      using assms(4) s by simp
  qed
  have l63: "int (length (unreservedOf ids res)) < 2 ^ 63"
    using assms(5) by (rule less_trans) simp
  from shardBySize_total[OF kr sb l63 assms(6), of L "Seed cfg"]
  show ?thesis using size by (auto simp: applyStrategy_def)
qed

lemma countsOf_bounds:
  assumes "list_all (\<lambda>e. int (length (elems (snd e))) \<le> 2 ^ 62) rm"
  shows "0 \<le> countsOf rm j \<and> countsOf rm j \<le> 2 ^ 62"
proof -
  define fs where "fs = filter (\<lambda>e. shardIndexOf (fst e) = j) rm"
  show ?thesis
  proof (cases fs)
    case Nil
    then show ?thesis by (simp add: countsOf_def fs_def[symmetric])
  next
    case (Cons e es)
    then have "last fs \<in> set fs" by (intro last_in_set) simp
    moreover have "set fs \<subseteq> set rm" by (auto simp: fs_def)
    ultimately have "last fs \<in> set rm" by blast
    then have b: "int (length (elems (snd (last fs)))) \<le> 2 ^ 62"
      using assms by (simp add: list_all_iff)
    have "countsOf rm j = int (length (elems (snd (last fs))))"
      using Cons by (simp add: countsOf_def fs_def[symmetric] del: last.simps)
    then show ?thesis using b by simp
  qed
qed

lemma withinInt64_bounds:
  assumes "withinInt64 cfg sourceIDs"
      and "validateShardingParameters cfg"
      and "applyReservations (applyExclusions sourceIDs (ExcludeIDs cfg)) (ReservedIDs cfg) n = Inr r"
  shows "\<forall>p\<in>set (ShardPercentages cfg).
           int (length (applyExclusions sourceIDs (ExcludeIDs cfg))) * p < 2 ^ 53"
    and "\<forall>s\<in>set (ShardSizes cfg). s + int (length (UnreservedIDs r)) < 2 ^ 63"
    and "int (length (UnreservedIDs r)) < 2 ^ 62"
    and "\<forall>j. 0 \<le> countsFor (Some r) j \<and> countsFor (Some r) j \<le> 2 ^ 62"
proof -
  let ?F = "applyExclusions sourceIDs (ExcludeIDs cfg)"
  note ar = applyReservations_Inr[OF assms(3)]
  have lF: "length ?F \<le> length sourceIDs" by (simp add: applyExclusions_filter)
  have lU: "length (UnreservedIDs r) \<le> length ?F" unfolding ar(5) by simp
  from assms(1) have n: "int (length sourceIDs) < 2 ^ 62"
    and c: "list_all (\<lambda>e. int (length (elems (snd e))) \<le> 2 ^ 62) (ReservedIDs cfg)"
    and p: "\<forall>p\<in>set (ShardPercentages cfg). int (length sourceIDs) * p < 2 ^ 53"
    and s: "\<forall>s\<in>set (ShardSizes cfg). s + int (length sourceIDs) < 2 ^ 63"
    by (simp_all add: withinInt64_def Let_def list_all_iff)
  show "int (length (UnreservedIDs r)) < 2 ^ 62" using n lF lU by linarith
  show "\<forall>s\<in>set (ShardSizes cfg). s + int (length (UnreservedIDs r)) < 2 ^ 63"
  proof
    fix x assume "x \<in> set (ShardSizes cfg)"
    then have "x + int (length sourceIDs) < 2 ^ 63" using s by simp
    then show "x + int (length (UnreservedIDs r)) < 2 ^ 63" using lF lU by linarith
  qed
  show "\<forall>j. 0 \<le> countsFor (Some r) j \<and> countsFor (Some r) j \<le> 2 ^ 62"
    using countsOf_bounds[OF c] by (simp add: countsFor_def ar(4))
  show "\<forall>p\<in>set (ShardPercentages cfg). int (length ?F) * p < 2 ^ 53"
  proof
    fix x assume x: "x \<in> set (ShardPercentages cfg)"
    show "int (length ?F) * x < 2 ^ 53"
    proof (cases "0 \<le> x")
      case True
      have "int (length ?F) * x \<le> int (length sourceIDs) * x"
        using lF True by (intro mult_right_mono) simp_all
      also have "\<dots> < 2 ^ 53" using p x by simp
      finally show ?thesis .
    next
      case False
      then have "int (length ?F) * x \<le> 0" by (simp add: mult_nonneg_nonpos)
      then show ?thesis by (rule le_less_trans) simp
    qed
  qed
qed

text \<open>
  Claim C1, as stated: for every strategy with validated parameters the buckets together
  with the excluded identifiers are the pool, each identifier once. The size strategy
  without a final \<open>-1\<close> distributes only as many identifiers as the sizes ask for: with
  sizes 1 and 1 and a pool of three, identifier 3 is neither excluded nor in a bucket.
\<close>

theorem C1_counterexample:
  "distinct [''1'', ''2'', ''3'']
   \<and> validateShardingParameters
        \<lparr>Strategy = ''size'', ShardCount = 0, ShardPercentages = [], ShardSizes = [1, 1],
         Seed = [], ExcludeIDs = [], ReservedIDs = []\<rparr>
   \<and> runShard demoLib
        \<lparr>Strategy = ''size'', ShardCount = 0, ShardPercentages = [], ShardSizes = [1, 1],
         Seed = [], ExcludeIDs = [], ReservedIDs = []\<rparr> [''1'', ''2'', ''3'']
       = Inr [Some [''1''], Some [''2'']]
   \<and> mset (allOf [Some [''1''], Some [''2'']]) + mset (filter (\<lambda>i. i \<in> set []) [''1'', ''2'', ''3''])
       \<noteq> mset [''1'', ''2'', ''3'']"
proof -
  have a: "distinct [''1'', ''2'', ''3'']" by simp
  have b: "validateShardingParameters
        \<lparr>Strategy = ''size'', ShardCount = 0, ShardPercentages = [], ShardSizes = [1, 1],
         Seed = [], ExcludeIDs = [], ReservedIDs = []\<rparr>" by code_simp
  have c: "runShard demoLib
        \<lparr>Strategy = ''size'', ShardCount = 0, ShardPercentages = [], ShardSizes = [1, 1],
         Seed = [], ExcludeIDs = [], ReservedIDs = []\<rparr> [''1'', ''2'', ''3'']
       = Inr [Some [''1''], Some [''2'']]" by code_simp
  have d: "mset (allOf [Some [''1''], Some [''2'']]) + mset (filter (\<lambda>i. i \<in> set []) [''1'', ''2'', ''3''])
       \<noteq> mset [''1'', ''2'', ''3'']"
  proof
    assume "mset (allOf [Some [''1''], Some [''2'']]) + mset (filter (\<lambda>i. i \<in> set []) [''1'', ''2'', ''3''])
       = mset [''1'', ''2'', ''3'']"
    then have "size (mset (allOf [Some [''1''], Some [''2'']]) + mset (filter (\<lambda>i. i \<in> set []) [''1'', ''2'', ''3'']))
       = size (mset [''1'', ''2'', ''3''])" by (simp only:)
    then show False by simp
  qed
  show ?thesis by (rule conjI[OF a conjI[OF b conjI[OF c d]]])
qed

text \<open>
  A reserved identifier that is not in the pool is put in its bucket all the same, so
  the buckets can hold an identifier the pool does not.
\<close>

lemma reserved_outside_pool_is_output:
  "runShard demoLib
     \<lparr>Strategy = ''round-robin'', ShardCount = 1, ShardPercentages = [], ShardSizes = [],
      Seed = [], ExcludeIDs = [], ReservedIDs = [(''shard_0'', Some [''9''])]\<rparr> [''1'']
     = Inr [Some [''1'', ''9'']]"
  by code_simp

text \<open>
  Claim C1, amended. Take a pool of distinct identifiers, validated parameters, sizes
  and counts on which the 64-bit arithmetic is exact, and a reservation map that
  \<^verbatim>\<open>applyReservations\<close> accepts. The run returns buckets in which no identifier occurs
  twice, under every strategy. If moreover every reserved identifier is in the pool and
  not excluded, and (when the strategy is size or percentage) either some identifier is
  left to distribute or none is reserved, then the buckets together with the excluded
  identifiers are the pool, each identifier once, under round-robin, percentage and
  rendezvous always, and under size exactly when the shard sizes that the rule of the
  size strategy gives add up to the whole distributable pool. A final \<open>-1\<close> makes them
  add up.
\<close>

theorem C1_completeness_disjointness:
  fixes L :: "'g stdlib"
  assumes "distinct sourceIDs"
      and "validateShardingParameters cfg"
      and "withinInt64 cfg sourceIDs"
      and "applyReservations (applyExclusions sourceIDs (ExcludeIDs cfg)) (ReservedIDs cfg)
             (resolveShardCount cfg) = Inr r"
  shows "\<exists>buckets. runShard L cfg sourceIDs = Inr buckets
          \<and> distinct (allOf buckets)
          \<and> (set (allReserved (ReservedIDs cfg)) \<subseteq> set sourceIDs - set (ExcludeIDs cfg)
             \<and> (Strategy cfg = ''size'' \<or> Strategy cfg = ''percentage'' \<longrightarrow>
                  UnreservedIDs r \<noteq> [] \<or> allReserved (ReservedIDs cfg) = [])
             \<longrightarrow> (mset (allOf buckets) + mset (filter (\<lambda>i. i \<in> set (ExcludeIDs cfg)) sourceIDs)
                    = mset sourceIDs
                  \<longleftrightarrow> (Strategy cfg = ''size'' \<longrightarrow>
                        sum_list (sizeTargets (CountsByShard r) (int (length (UnreservedIDs r))) 0
                                   (ShardSizes cfg)) = length (UnreservedIDs r))))
          \<and> (- 1 \<in> set (ShardSizes cfg) \<longrightarrow>
               sum_list (sizeTargets (CountsByShard r) (int (length (UnreservedIDs r))) 0
                          (ShardSizes cfg)) = length (UnreservedIDs r))"
proof -
  let ?F = "applyExclusions sourceIDs (ExcludeIDs cfg)"
  let ?R = "allReserved (ReservedIDs cfg)"
  let ?U = "UnreservedIDs r"
  let ?X = "filter (\<lambda>i. i \<in> set (ExcludeIDs cfg)) sourceIDs"
  let ?sum = "sum_list (sizeTargets (CountsByShard r) (int (length ?U)) 0 (ShardSizes cfg))"
  note ar = applyReservations_Inr[OF assms(4)]
  have U: "?U = filter (\<lambda>i. i \<notin> set ?R) ?F" by (rule ar(5))
  have re: "reservedEntries (Some r) = ReservedIDs cfg" by (simp add: reservedEntries_def ar(3))
  have un: "unreservedOf ?F (Some r) = ?U" by (simp add: unreservedOf_def)
  have cf: "countsFor (Some r) = CountsByShard r" by (simp add: countsFor_def fun_eq_iff)
  have dF: "distinct ?F" using assms(1) by (simp add: applyExclusions_filter)
  have sF: "set ?F = set sourceIDs - set (ExcludeIDs cfg)" by (auto simp: applyExclusions_filter)
  have dUR: "distinct (?U @ ?R)" using dF ar(2) U by auto
  have kr: "\<not> keyOutOfRange (reservedEntries (Some r)) (resolveShardCount cfg)"
    using ar(1) re by simp
  note wb = withinInt64_bounds[OF assms(3,2,4)]
  have b2: "\<forall>s\<in>set (ShardSizes cfg). s + int (length (unreservedOf ?F (Some r))) < 2 ^ 63"
    using wb(2) un by simp
  have b3: "int (length (unreservedOf ?F (Some r))) < 2 ^ 62" using wb(3) un by simp
  from applyStrategy_total[OF assms(2) kr wb(1) b2 b3 wb(4), of L]
  obtain out where out: "applyStrategy L cfg ?F (Some r) = Inr out"
    and sub: "mset (allOf out) \<subseteq># mset ?U + mset ?R"
    and full: "(Strategy cfg = ''size'' \<or> Strategy cfg = ''percentage'' \<longrightarrow> ?U \<noteq> [] \<or> ?R = []) \<longrightarrow>
            (mset (allOf out) = mset ?U + mset ?R \<longleftrightarrow> (Strategy cfg = ''size'' \<longrightarrow> ?sum = length ?U))"
    unfolding re un cf by blast
  have run: "runShard L cfg sourceIDs = Inr out"
    using assms(4) out by (simp add: runShard_def Let_def)
  have d: "distinct (allOf out)"
    using distinct_of_subset[of "allOf out" "?U @ ?R"] sub dUR by simp
  have eq: "mset (allOf out) + mset ?X = mset sourceIDs
              \<longleftrightarrow> (Strategy cfg = ''size'' \<longrightarrow> ?sum = length ?U)"
    if a: "set ?R \<subseteq> set sourceIDs - set (ExcludeIDs cfg)"
      and c: "Strategy cfg = ''size'' \<or> Strategy cfg = ''percentage'' \<longrightarrow> ?U \<noteq> [] \<or> ?R = []"
  proof -
    have split: "mset ?U + mset ?R = mset ?F"
      unfolding U using mset_split_reserved[OF dF ar(2)] a sF by simp
    have pool: "mset ?F + mset ?X = mset sourceIDs"
      using mset_applyExclusions[of sourceIDs "ExcludeIDs cfg"] by simp
    have "mset (allOf out) + mset ?X = mset sourceIDs \<longleftrightarrow> mset (allOf out) = mset ?F"
      unfolding pool[symmetric] by simp
    also have "\<dots> \<longleftrightarrow> mset (allOf out) = mset ?U + mset ?R" by (simp only: split)
    also have "\<dots> \<longleftrightarrow> (Strategy cfg = ''size'' \<longrightarrow> ?sum = length ?U)" using full c by blast
    finally show ?thesis .
  qed
  have last: "?sum = length ?U" if "- 1 \<in> set (ShardSizes cfg)"
    using sum_sizeTargets_eq[of "int (length ?U)" "ShardSizes cfg" "CountsByShard r" 0] that by simp
  have "distinct (allOf out)
          \<and> (set ?R \<subseteq> set sourceIDs - set (ExcludeIDs cfg)
             \<and> (Strategy cfg = ''size'' \<or> Strategy cfg = ''percentage'' \<longrightarrow> ?U \<noteq> [] \<or> ?R = [])
             \<longrightarrow> (mset (allOf out) + mset ?X = mset sourceIDs
                  \<longleftrightarrow> (Strategy cfg = ''size'' \<longrightarrow> ?sum = length ?U)))
          \<and> (- 1 \<in> set (ShardSizes cfg) \<longrightarrow> ?sum = length ?U)"
    using d eq last by blast
  then show ?thesis using run by (intro exI[of _ out] conjI) simp_all
qed

theorem C1_witness:
  "distinct [''1'', ''2'', ''3'', ''4'', ''5'', ''6'']
   \<and> validateShardingParameters
        \<lparr>Strategy = ''size'', ShardCount = 0, ShardPercentages = [], ShardSizes = [3, 2],
         Seed = ''s'', ExcludeIDs = [''1''], ReservedIDs = [(''shard_0'', Some [''3''])]\<rparr>
   \<and> withinInt64
        \<lparr>Strategy = ''size'', ShardCount = 0, ShardPercentages = [], ShardSizes = [3, 2],
         Seed = ''s'', ExcludeIDs = [''1''], ReservedIDs = [(''shard_0'', Some [''3''])]\<rparr>
        [''1'', ''2'', ''3'', ''4'', ''5'', ''6'']
   \<and> \<not> isError (applyReservations (applyExclusions [''1'', ''2'', ''3'', ''4'', ''5'', ''6''] [''1''])
          [(''shard_0'', Some [''3''])] 2)
   \<and> set (allReserved [(''shard_0'', Some [''3''])]) \<subseteq> set [''1'', ''2'', ''3'', ''4'', ''5'', ''6''] - set [''1'']
   \<and> sum_list (sizeTargets (countsOf [(''shard_0'', Some [''3''])]) 4 0 [3, 2]) = 4
   \<and> (\<exists>buckets. runShard demoLib
        \<lparr>Strategy = ''size'', ShardCount = 0, ShardPercentages = [], ShardSizes = [3, 2],
         Seed = ''s'', ExcludeIDs = [''1''], ReservedIDs = [(''shard_0'', Some [''3''])]\<rparr>
        [''1'', ''2'', ''3'', ''4'', ''5'', ''6''] = Inr buckets
      \<and> distinct (allOf buckets)
      \<and> mset (allOf buckets) + mset (filter (\<lambda>i. i \<in> set [''1'']) [''1'', ''2'', ''3'', ''4'', ''5'', ''6''])
          = mset [''1'', ''2'', ''3'', ''4'', ''5'', ''6''])"
proof -
  let ?cfg = "\<lparr>Strategy = ''size'', ShardCount = 0, ShardPercentages = [], ShardSizes = [3, 2],
         Seed = ''s'', ExcludeIDs = [''1''], ReservedIDs = [(''shard_0'', Some [''3''])]\<rparr>"
  let ?pool = "[''1'', ''2'', ''3'', ''4'', ''5'', ''6'']"
  have h1: "distinct ?pool" by simp
  have h2: "validateShardingParameters ?cfg" by code_simp
  have h3: "withinInt64 ?cfg ?pool" by (simp add: withinInt64_def)
  have ok: "\<not> isError (applyReservations (applyExclusions ?pool [''1'']) [(''shard_0'', Some [''3''])] 2)"
    by code_simp
  then obtain r where r0: "applyReservations (applyExclusions ?pool [''1'']) [(''shard_0'', Some [''3''])] 2 = Inr r"
    by (cases "applyReservations (applyExclusions ?pool [''1'']) [(''shard_0'', Some [''3''])] 2")
       (auto simp: isError_def)
  have rs: "resolveShardCount ?cfg = 2" by (simp add: resolveShardCount_def)
  have r: "applyReservations (applyExclusions ?pool (ExcludeIDs ?cfg)) (ReservedIDs ?cfg)
             (resolveShardCount ?cfg) = Inr r"
    using r0 rs by simp
  have h4: "set (allReserved [(''shard_0'', Some [''3''])]) \<subseteq> set ?pool - set [''1'']" by code_simp
  have U: "UnreservedIDs r = [''2'', ''4'', ''5'', ''6'']"
    using applyReservations_Inr(5)[OF r0] by (simp add: applyExclusions_def allReserved_def)
  have h6: "UnreservedIDs r \<noteq> []" using U by simp
  have cnt: "CountsByShard r = countsOf [(''shard_0'', Some [''3''])]"
    by (rule applyReservations_Inr(4)[OF r0])
  have c0: "countsOf [(''shard_0'', Some [''3''])] 0 = 1"
    and c1: "countsOf [(''shard_0'', Some [''3''])] 1 = 0" by code_simp+
  have h7: "sum_list (sizeTargets (countsOf [(''shard_0'', Some [''3''])]) 4 0 [3, 2]) = 4"
    by (simp add: Let_def c0 c1)
  from C1_completeness_disjointness[OF h1 h2 h3 r, where L = demoLib]
  obtain buckets where b: "runShard demoLib ?cfg ?pool = Inr buckets" "distinct (allOf buckets)"
    and imp: "set (allReserved (ReservedIDs ?cfg)) \<subseteq> set ?pool - set (ExcludeIDs ?cfg)
             \<and> (Strategy ?cfg = ''size'' \<or> Strategy ?cfg = ''percentage'' \<longrightarrow>
                  UnreservedIDs r \<noteq> [] \<or> allReserved (ReservedIDs ?cfg) = [])
             \<longrightarrow> (mset (allOf buckets) + mset (filter (\<lambda>i. i \<in> set (ExcludeIDs ?cfg)) ?pool)
                    = mset ?pool
                  \<longleftrightarrow> (Strategy ?cfg = ''size'' \<longrightarrow>
                        sum_list (sizeTargets (CountsByShard r) (int (length (UnreservedIDs r))) 0
                                   (ShardSizes ?cfg)) = length (UnreservedIDs r)))"
    by (elim exE conjE)
  have "sum_list (sizeTargets (CountsByShard r) (int (length (UnreservedIDs r))) 0 (ShardSizes ?cfg))
          = length (UnreservedIDs r)"
    using h7 by (simp add: cnt U)
  then have "mset (allOf buckets) + mset (filter (\<lambda>i. i \<in> set (ExcludeIDs ?cfg)) ?pool) = mset ?pool"
    using imp h4 h6 by simp
  then have e: "mset (allOf buckets) + mset (filter (\<lambda>i. i \<in> set [''1'']) ?pool) = mset ?pool"
    by simp
  have B: "\<exists>buckets. runShard demoLib ?cfg ?pool = Inr buckets \<and> distinct (allOf buckets)
      \<and> mset (allOf buckets) + mset (filter (\<lambda>i. i \<in> set [''1'']) ?pool) = mset ?pool"
    by (rule exI[of _ buckets]) (rule conjI[OF b(1) conjI[OF b(2) e]])
  show ?thesis by (rule conjI[OF h1 conjI[OF h2 conjI[OF h3 conjI[OF ok conjI[OF h4 conjI[OF h7 B]]]]]])
qed


section \<open>Independence of the order of the input\<close>






















section \<open>Evaluations of the engine\<close>

text \<open>
  Claim C10 (buckets are never nil). With one identifier and two shards the round-robin
  strategy leaves the second bucket as the nil slice that \<^verbatim>\<open>make([][]string, shardCount)\<close>
  put there, and so does the percentage strategy for a shard whose share is empty; only
  \<^verbatim>\<open>shardByRendezvous\<close> and the loop of \<^verbatim>\<open>shardBySize\<close> store \<^verbatim>\<open>[]string{}\<close>. The seed is
  empty, so the library parameters are not consulted.
\<close>

theorem C10_nil_bucket:
  "runShard demoLib
     \<lparr>Strategy = ''round-robin'', ShardCount = 2, ShardPercentages = [], ShardSizes = [],
      Seed = [], ExcludeIDs = [], ReservedIDs = []\<rparr> [''1'']
     = Inr [Some [''1''], None]
   \<and> runShard demoLib
     \<lparr>Strategy = ''percentage'', ShardCount = 0, ShardPercentages = [50, 50], ShardSizes = [],
      Seed = [], ExcludeIDs = [], ReservedIDs = []\<rparr> [''1'']
     = Inr [None, Some [''1'']]
   \<and> runShard demoLib
     \<lparr>Strategy = ''rendezvous'', ShardCount = 2, ShardPercentages = [], ShardSizes = [],
      Seed = [], ExcludeIDs = [], ReservedIDs = []\<rparr> []
     = Inr [Some [], Some []]"
  by code_simp

text \<open>
  Claim C3 (a reserved identifier is in its bucket, also when nothing is left to
  distribute). When every identifier of the pool is reserved, \<^verbatim>\<open>shardBySize\<close> and
  \<^verbatim>\<open>shardByPercentage\<close> return at \<^verbatim>\<open>len(unreservedIDs) == 0\<close>, before the loop that merges
  the reserved identifiers: identifier 1, reserved for shard 0, is in no bucket. The
  round-robin strategy on the same input puts it in bucket 0.
\<close>

theorem C3_reserved_dropped_on_empty_pool:
  "runShard demoLib
     \<lparr>Strategy = ''size'', ShardCount = 0, ShardPercentages = [], ShardSizes = [1],
      Seed = [], ExcludeIDs = [], ReservedIDs = [(''shard_0'', Some [''1''])]\<rparr> [''1'']
     = Inr [None]
   \<and> runShard demoLib
     \<lparr>Strategy = ''percentage'', ShardCount = 0, ShardPercentages = [100], ShardSizes = [],
      Seed = [], ExcludeIDs = [], ReservedIDs = [(''shard_0'', Some [''1''])]\<rparr> [''1'']
     = Inr [None]
   \<and> runShard demoLib
     \<lparr>Strategy = ''round-robin'', ShardCount = 1, ShardPercentages = [], ShardSizes = [],
      Seed = [], ExcludeIDs = [], ReservedIDs = [(''shard_0'', Some [''1''])]\<rparr> [''1'']
     = Inr [Some [''1'']]"
  by code_simp

end
